theory Spec2Isabelle
  imports Main
begin

section \<open>Byte strings and the Go library functions the program calls\<close>

text \<open>
  A Go string is a sequence of bytes; it is modelled as \<open>string\<close> (a list of 8-bit
  \<open>char\<close>).  The program, \<^verbatim>\<open>main.go\<close>, calls \<^verbatim>\<open>strings.TrimSpace\<close>,
  \<^verbatim>\<open>bufio.Scanner\<close>, \<^verbatim>\<open>strconv.Atoi\<close> and \<^verbatim>\<open>filepath.Base\<close> of the Go
  standard library.  Their models below follow the library's documented behaviour on a
  Unix system with 64-bit \<^verbatim>\<open>int\<close>.  An error of the operating system while an open file
  is read is not modelled: the bytes of an opened file are always delivered.
\<close>

abbreviation nl :: char where "nl \<equiv> CHR 0x0A"
abbreviation cr :: char where "cr \<equiv> CHR 0x0D"
abbreviation slash :: char where "slash \<equiv> CHR ''/''"

subsection \<open>strings.TrimSpace\<close>

definition asciiSpace :: "char \<Rightarrow> bool" where
  \<comment> \<open>the table \<^verbatim>\<open>asciiSpace\<close>: tab, newline, vertical tab, form feed, carriage return, space\<close>
  "asciiSpace c \<longleftrightarrow>
     c = CHR 0x09 \<or> c = nl \<or> c = CHR 0x0B \<or> c = CHR 0x0C \<or> c = cr \<or> c = CHR 0x20"

fun isSpaceRune :: "string \<Rightarrow> bool" where
  \<comment> \<open>the bytes are the UTF-8 encoding of one rune \<open>r\<close> with \<^verbatim>\<open>unicode.IsSpace(r)\<close>:
      the six ASCII ones, U+0085, U+00A0, U+1680, U+2000 to U+200A, U+2028, U+2029, U+202F,
      U+205F, U+3000\<close>
  "isSpaceRune [a] = asciiSpace a"
| "isSpaceRune [a, b] = (a = CHR 0xC2 \<and> (b = CHR 0x85 \<or> b = CHR 0xA0))"
| "isSpaceRune [a, b, c] =
     ((a = CHR 0xE1 \<and> b = CHR 0x9A \<and> c = CHR 0x80) \<or>
      (a = CHR 0xE2 \<and> b = CHR 0x80 \<and>
         ((0x80 \<le> (of_char c :: nat) \<and> (of_char c :: nat) \<le> 0x8A) \<or>
          c = CHR 0xA8 \<or> c = CHR 0xA9 \<or> c = CHR 0xAF)) \<or>
      (a = CHR 0xE2 \<and> b = CHR 0x81 \<and> c = CHR 0x9F) \<or>
      (a = CHR 0xE3 \<and> b = CHR 0x80 \<and> c = CHR 0x80))"
| "isSpaceRune _ = False"

definition leadingSpace :: "string \<Rightarrow> nat" where
  \<comment> \<open>the width in bytes of a white-space rune at the start of \<open>s\<close>, 0 when the first rune
      (or invalid byte) is not white space\<close>
  "leadingSpace s =
     (if isSpaceRune (take 1 s) then 1
      else if isSpaceRune (take 2 s) then 2
      else if isSpaceRune (take 3 s) then 3 else 0)"

definition trailingSpace :: "string \<Rightarrow> nat" where
  \<comment> \<open>the same for the last rune of \<open>s\<close> (\<^verbatim>\<open>utf8.DecodeLastRuneInString\<close>)\<close>
  "trailingSpace s =
     (if isSpaceRune (drop (length s - 1) s) then 1
      else if isSpaceRune (drop (length s - 2) s) then 2
      else if isSpaceRune (drop (length s - 3) s) then 3 else 0)"

function TrimLeft :: "string \<Rightarrow> string" where
  \<comment> \<open>\<^verbatim>\<open>TrimLeftFunc(s, unicode.IsSpace)\<close>: drop white-space runes from the start\<close>
  "TrimLeft s = (if leadingSpace s = 0 then s else TrimLeft (drop (leadingSpace s) s))"
  by pat_completeness auto
termination
proof (relation "measure length")
  show "wf (measure length)" by simp
next
  fix s :: string
  assume "leadingSpace s \<noteq> 0"
  then have "s \<noteq> []" by (auto simp: leadingSpace_def)
  with \<open>leadingSpace s \<noteq> 0\<close> show "(drop (leadingSpace s) s, s) \<in> measure length"
    by simp
qed

function TrimRight :: "string \<Rightarrow> string" where
  \<comment> \<open>\<^verbatim>\<open>TrimRightFunc(s, unicode.IsSpace)\<close>: drop white-space runes from the end\<close>
  "TrimRight s =
     (if trailingSpace s = 0 then s else TrimRight (take (length s - trailingSpace s) s))"
  by pat_completeness auto
termination
proof (relation "measure length")
  show "wf (measure length)" by simp
next
  fix s :: string
  assume "trailingSpace s \<noteq> 0"
  then have "s \<noteq> []" by (auto simp: trailingSpace_def)
  with \<open>trailingSpace s \<noteq> 0\<close> show "(take (length s - trailingSpace s) s, s) \<in> measure length"
    by simp
qed

declare TrimLeft.simps [simp del] TrimRight.simps [simp del]

definition TrimSpace :: "string \<Rightarrow> string" where
  \<comment> \<open>the ASCII fast path of the library computes the same string\<close>
  "TrimSpace s = TrimRight (TrimLeft s)"

subsection \<open>bufio.Scanner with the default split function ScanLines\<close>

datatype io_error =
    PathError string  \<comment> \<open>an error of the operating system, with its message\<close>
  | ErrTooLong        \<comment> \<open>\<^verbatim>\<open>bufio.ErrTooLong\<close>\<close>

fun Error :: "io_error \<Rightarrow> string" where
  "Error (PathError msg) = msg"
| "Error ErrTooLong = ''bufio.Scanner: token too long''"

definition MaxScanTokenSize :: nat where
  "MaxScanTokenSize = 64 * 1024"

definition dropCR :: "string \<Rightarrow> string" where
  "dropCR data = (if data \<noteq> [] \<and> last data = cr then butlast data else data)"

datatype scan =
    Token string string      \<comment> \<open>\<^verbatim>\<open>Scan()\<close> is true: \<^verbatim>\<open>Text()\<close> and the unread input\<close>
  | Stop "io_error option"   \<comment> \<open>\<^verbatim>\<open>Scan()\<close> is false: the value of \<^verbatim>\<open>Err()\<close>\<close>

definition Scan :: "string \<Rightarrow> scan" where
  \<comment> \<open>One call of \<^verbatim>\<open>scanner.Scan()\<close> on the unread input \<open>data\<close>.  A line is the bytes
      up to the next newline, or up to the end of the input when they are not empty.  The
      scanner's buffer holds at most \<open>MaxScanTokenSize\<close> bytes: a line that does not fit
      there with its newline ends the scan with \<open>ErrTooLong\<close>.\<close>
  "Scan data =
     (if data = [] then Stop None
      else let line = takeWhile (\<lambda>c. c \<noteq> nl) data;
               rest = drop 1 (dropWhile (\<lambda>c. c \<noteq> nl) data)
           in if MaxScanTokenSize \<le> length line then Stop (Some ErrTooLong)
              else Token (dropCR line) rest)"

subsection \<open>strconv.Atoi\<close>

datatype num_error = ErrSyntax | ErrRange

definition isDigit :: "char \<Rightarrow> bool" where
  "isDigit c \<longleftrightarrow> 48 \<le> (of_char c :: nat) \<and> (of_char c :: nat) \<le> 57"

definition digitVal :: "char \<Rightarrow> nat" where
  "digitVal c = of_char c - 48"

fun ParseUint_loop :: "nat \<Rightarrow> string \<Rightarrow> num_error + nat" where
  \<comment> \<open>the digit loop of \<^verbatim>\<open>ParseUint(s, 10, 64)\<close>; \<open>2 ^ 64 div 10 + 1\<close> is its cutoff\<close>
  "ParseUint_loop n [] = Inr n"
| "ParseUint_loop n (c # cs) =
     (if \<not> isDigit c then Inl ErrSyntax
      else if (2 ^ 64 - 1) div 10 + 1 \<le> n then Inl ErrRange
      else if 2 ^ 64 - 1 < n * 10 + digitVal c then Inl ErrRange
      else ParseUint_loop (n * 10 + digitVal c) cs)"

definition ParseUint :: "string \<Rightarrow> num_error + nat" where
  "ParseUint s = (if s = [] then Inl ErrSyntax else ParseUint_loop 0 s)"

definition ParseInt :: "string \<Rightarrow> num_error + int" where
  \<comment> \<open>\<^verbatim>\<open>ParseInt(s, 10, 0)\<close> with 64-bit \<^verbatim>\<open>int\<close>\<close>
  "ParseInt s =
     (if s = [] then Inl ErrSyntax
      else let neg = (hd s = CHR ''-'');
               s1 = (if hd s = CHR ''+'' \<or> hd s = CHR ''-'' then tl s else s)
           in case ParseUint s1 of
                Inl e \<Rightarrow> Inl e
              | Inr un \<Rightarrow>
                  if \<not> neg \<and> 2 ^ 63 \<le> un then Inl ErrRange
                  else if neg \<and> 2 ^ 63 < un then Inl ErrRange
                  else Inr (if neg then - int un else int un))"

definition Atoi :: "string \<Rightarrow> num_error + int" where
  \<comment> \<open>the fast path of \<^verbatim>\<open>Atoi\<close> for short strings returns what \<^verbatim>\<open>ParseInt\<close> returns\<close>
  "Atoi s = ParseInt s"

subsection \<open>filepath.Base and the verb %d\<close>

definition Base :: "string \<Rightarrow> string" where
  "Base path =
     (if path = [] then ''.''
      else let p = rev (dropWhile (\<lambda>c. c = slash) (rev path));
               q = rev (takeWhile (\<lambda>c. c \<noteq> slash) (rev p))
           in if q = [] then ''/'' else q)"

definition digitChar :: "nat \<Rightarrow> char" where
  "digitChar d = char_of (48 + d)"

fun itoa :: "nat \<Rightarrow> string" where
  \<comment> \<open>\<^verbatim>\<open>%d\<close> of a number that is not negative\<close>
  "itoa n = (if n < 10 then [digitChar n] else itoa (n div 10) @ [digitChar (n mod 10)])"

declare itoa.simps [simp del]


section \<open>The program\<close>

subsection \<open>The world of one invocation\<close>

text \<open>
  \<^verbatim>\<open>main\<close> passes the same \<^verbatim>\<open>configPath\<close>, the file \<^verbatim>\<open>~/.jumper/folders\<close>, to every
  command, so the world holds that one file.  The answers of the operating system that
  the commands branch on are fields of the world as well.
\<close>

record world =
  store :: "io_error + string"        \<comment> \<open>the bytes of the file, or the error of \<^verbatim>\<open>os.Open\<close>\<close>
  getwd :: "io_error + string"        \<comment> \<open>the result of \<^verbatim>\<open>os.Getwd\<close>\<close>
  open_write :: "io_error option"     \<comment> \<open>the error of \<^verbatim>\<open>os.OpenFile\<close> and \<^verbatim>\<open>os.Create\<close>, if any\<close>
  write_string :: "(nat \<times> io_error) option"
    \<comment> \<open>what a failing \<^verbatim>\<open>file.WriteString\<close> returns, if it fails: the number of bytes it
        wrote before the error, and the error\<close>

record run =
  stdout :: string
  stderr :: string
  exit_code :: nat
  final :: world

definition exit1 :: "world \<Rightarrow> string \<Rightarrow> run" where
  \<comment> \<open>\<^verbatim>\<open>fmt.Fprintf(os.Stderr, msg); os.Exit(1)\<close>\<close>
  "exit1 w msg = \<lparr>stdout = [], stderr = msg, exit_code = 1, final = w\<rparr>"

definition return0 :: "world \<Rightarrow> string \<Rightarrow> run" where
  \<comment> \<open>print \<open>msg\<close> to standard output and return from \<^verbatim>\<open>main\<close>\<close>
  "return0 w msg = \<lparr>stdout = msg, stderr = [], exit_code = 0, final = w\<rparr>"

subsection \<open>readFolderList\<close>

function scan_loop :: "string \<Rightarrow> string list \<Rightarrow> string list \<times> io_error option" where
  \<comment> \<open>the loop \<^verbatim>\<open>for scanner.Scan() { ... }\<close> on the unread input, with \<^verbatim>\<open>folders\<close> so far;
      it returns \<^verbatim>\<open>folders\<close> and \<^verbatim>\<open>scanner.Err()\<close>\<close>
  "scan_loop data folders =
     (case Scan data of
        Stop e \<Rightarrow> (folders, e)
      | Token tok rest \<Rightarrow>
          (let line = TrimSpace tok
           in scan_loop rest (if line \<noteq> [] then folders @ [line] else folders)))"
  by pat_completeness auto
termination
proof (relation "measure (\<lambda>(data, folders). length data)")
  show "wf (measure (\<lambda>(data, folders). length data))" by simp
next
  fix data :: string and folders :: "string list" and tok rest line
  assume "Scan data = Token tok rest"
  then have "data \<noteq> []" and "rest = drop 1 (dropWhile (\<lambda>c. c \<noteq> nl) data)"
    by (auto simp: Scan_def Let_def split: if_splits)
  then have "length rest < length data"
    using length_dropWhile_le [of "\<lambda>c. c \<noteq> nl" data] by (cases data) auto
  then show "((rest, if line \<noteq> [] then folders @ [line] else folders), (data, folders))
      \<in> measure (\<lambda>(data, folders). length data)"
    by simp
qed

declare scan_loop.simps [simp del]

definition readFolderList :: "world \<Rightarrow> io_error + string list" where
  "readFolderList w =
     (case store w of
        Inl e \<Rightarrow> Inl e
      | Inr content \<Rightarrow>
          (case scan_loop content [] of
             (folders, Some e) \<Rightarrow> Inl e
           | (folders, None) \<Rightarrow> Inr folders))"

subsection \<open>addFolder\<close>

definition appended :: "world \<Rightarrow> string \<Rightarrow> world" where
  \<comment> \<open>the world after \<open>s\<close> was written to the file opened with \<^verbatim>\<open>O_APPEND\<close>\<close>
  "appended w s = (case store w of Inl e \<Rightarrow> w | Inr content \<Rightarrow> w\<lparr>store := Inr (content @ s)\<rparr>)"

definition addFolder :: "world \<Rightarrow> run" where
  "addFolder w =
     (case getwd w of
        Inl e \<Rightarrow> exit1 w (''Error getting current directory: '' @ Error e @ [nl])
      | Inr currentDir \<Rightarrow>
          (case readFolderList w of
             Inl e \<Rightarrow> exit1 w (''Error reading folder list: '' @ Error e @ [nl])
           | Inr folders \<Rightarrow>
               if currentDir \<in> set folders
               then return0 w (''Current folder already in the list: '' @ currentDir @ [nl])
               else (case open_write w of
                       Some e \<Rightarrow> exit1 w (''Error opening config file: '' @ Error e @ [nl])
                     | None \<Rightarrow>
                         (case write_string w of
                            Some (n, e) \<Rightarrow>
                              exit1 (appended w (take n (currentDir @ [nl])))
                                (''Error writing to config file: '' @ Error e @ [nl])
                          | None \<Rightarrow>
                              return0 (appended w (currentDir @ [nl]))
                                (''Added current folder to jump list: '' @ currentDir @ [nl])))))"

subsection \<open>jumpToFolder\<close>

definition atoi_index :: "string \<Rightarrow> string list \<Rightarrow> int option" where
  \<comment> \<open>the guard \<^verbatim>\<open>num, err := strconv.Atoi(arg); err == nil && num > 0 && num <= len(folders)\<close>:
      \<open>num\<close> when it holds\<close>
  "atoi_index arg folders =
     (case Atoi arg of
        Inl e \<Rightarrow> None
      | Inr num \<Rightarrow> if num > 0 \<and> num \<le> int (length folders) then Some num else None)"

fun jump_match :: "string \<Rightarrow> string list \<Rightarrow> string option" where
  \<comment> \<open>the loop over \<^verbatim>\<open>folders\<close> of \<^verbatim>\<open>jumpToFolder\<close>: the folder it prints, if any\<close>
  "jump_match arg [] = None"
| "jump_match arg (folder # folders) =
     (if Base folder = arg \<or> folder = arg then Some folder else jump_match arg folders)"

definition jump_target :: "string \<Rightarrow> string list \<Rightarrow> string option" where
  \<comment> \<open>what \<^verbatim>\<open>jumpToFolder\<close> prints for the folders it has read\<close>
  "jump_target arg folders =
     (case atoi_index arg folders of
        Some num \<Rightarrow> Some (folders ! nat (num - 1))
      | None \<Rightarrow> jump_match arg folders)"

definition jumpToFolder :: "world \<Rightarrow> string \<Rightarrow> run" where
  "jumpToFolder w arg =
     (case readFolderList w of
        Inl e \<Rightarrow> exit1 w []
      | Inr folders \<Rightarrow>
          (case jump_target arg folders of
             Some folder \<Rightarrow> return0 w folder
           | None \<Rightarrow> exit1 w []))"

subsection \<open>listFolders\<close>

fun print_folders :: "nat \<Rightarrow> string list \<Rightarrow> string" where
  \<comment> \<open>the loop \<^verbatim>\<open>for i, folder := range folders\<close> from index \<open>i\<close> on\<close>
  "print_folders i [] = []"
| "print_folders i (folder # folders) =
     itoa (i + 1) @ ''. '' @ folder @ [nl] @ print_folders (i + 1) folders"

definition listFolders :: "world \<Rightarrow> run" where
  "listFolders w =
     (case readFolderList w of
        Inl e \<Rightarrow> exit1 w (''Error reading folder list: '' @ Error e @ [nl])
      | Inr folders \<Rightarrow>
          if length folders = 0
          then return0 w (''No folders in jump list. Use 'jumper add' to add the current folder.''
                 @ [nl])
          else return0 w (''Available folders:'' @ [nl] @ print_folders 0 folders))"

subsection \<open>removeFolder\<close>

fun remove_match :: "string \<Rightarrow> nat \<Rightarrow> string list \<Rightarrow> int" where
  \<comment> \<open>the loop \<^verbatim>\<open>for i, folder := range folders\<close> of \<^verbatim>\<open>removeFolder\<close> from index \<open>i\<close> on:
      the value of \<^verbatim>\<open>indexToRemove\<close> after it\<close>
  "remove_match arg i [] = - 1"
| "remove_match arg i (folder # folders) =
     (if Base folder = arg \<or> folder = arg then int i else remove_match arg (i + 1) folders)"

definition index_to_remove :: "string \<Rightarrow> string list \<Rightarrow> int" where
  "index_to_remove arg folders =
     (case atoi_index arg folders of
        Some num \<Rightarrow> num - 1
      | None \<Rightarrow> remove_match arg 0 folders)"

fun write_all ::
  "(nat \<times> io_error) option \<Rightarrow> string \<Rightarrow> string list \<Rightarrow> string \<times> io_error option" where
  \<comment> \<open>the loop of \<^verbatim>\<open>file.WriteString(folder + "\n")\<close> on the file with content \<open>content\<close>:
      the content after it and the error that stopped it, if any.  A failing call leaves
      the first \<open>n\<close> bytes of its string in the file.\<close>
  "write_all werr content [] = (content, None)"
| "write_all werr content (folder # folders) =
     (case werr of
        Some (n, e) \<Rightarrow> (content @ take n (folder @ [nl]), Some e)
      | None \<Rightarrow> write_all werr (content @ folder @ [nl]) folders)"

definition removeFolder :: "world \<Rightarrow> string \<Rightarrow> run" where
  "removeFolder w arg =
     (case readFolderList w of
        Inl e \<Rightarrow> exit1 w (''Error reading folder list: '' @ Error e @ [nl])
      | Inr folders \<Rightarrow>
          if length folders = 0 then return0 w (''No folders in jump list.'' @ [nl])
          else let indexToRemove = index_to_remove arg folders
               in if indexToRemove = - 1
                  then exit1 w (''Folder not found: '' @ arg @ [nl])
                  else let removedFolder = folders ! nat indexToRemove;
                           folders' = take (nat indexToRemove) folders
                                      @ drop (nat indexToRemove + 1) folders
                       in (case open_write w of
                             Some e \<Rightarrow>
                               exit1 w (''Error opening config file: '' @ Error e @ [nl])
                           | None \<Rightarrow>
                               (case write_all (write_string w) [] folders' of
                                  (content, Some e) \<Rightarrow>
                                    exit1 (w\<lparr>store := Inr content\<rparr>)
                                      (''Error writing to config file: '' @ Error e @ [nl])
                                | (content, None) \<Rightarrow>
                                    return0 (w\<lparr>store := Inr content\<rparr>)
                                      (''Removed folder: '' @ removedFolder @ [nl]))))"

section \<open>Notions of the specification\<close>

fun lines_of :: "string \<Rightarrow> string list" where
  \<comment> \<open>the lines of a file: the pieces between its newline bytes\<close>
  "lines_of [] = [[]]"
| "lines_of (c # cs) =
     (if c = nl then [] # lines_of cs else (c # hd (lines_of cs)) # tl (lines_of cs))"

definition file_of :: "string list \<Rightarrow> string" where
  \<comment> \<open>the persisted format: each path followed by a newline\<close>
  "file_of folders = concat (map (\<lambda>folder. folder @ [nl]) folders)"

definition entry :: "string \<Rightarrow> bool" where
  \<comment> \<open>a string that is not empty, has no white space at either end and no newline, and
      fits the scanner's buffer with its newline\<close>
  "entry s \<longleftrightarrow>
     s \<noteq> [] \<and> leadingSpace s = 0 \<and> trailingSpace s = 0 \<and> nl \<notin> set s \<and>
     length s < MaxScanTokenSize"

definition kept :: "string \<Rightarrow> string list" where
  \<comment> \<open>what one line of the file contributes to the list that is read: itself trimmed,
      unless that is empty\<close>
  "kept l = (if TrimSpace l \<noteq> [] then [TrimSpace l] else [])"

definition matches :: "string \<Rightarrow> string \<Rightarrow> bool" where
  \<comment> \<open>the base name of the path equals the token, or the full path does\<close>
  "matches token path \<longleftrightarrow> Base path = token \<or> path = token"

definition resolve_spec :: "string \<Rightarrow> string list \<Rightarrow> (nat \<times> string) option" where
  \<comment> \<open>the resolver as the specification words it: a token that parses as an integer \<open>n\<close>
      with \<open>1 \<le> n \<le> length list\<close> selects position \<open>n - 1\<close>; otherwise the first
      entry in list order that matches is selected; otherwise nothing is\<close>
  "resolve_spec token list =
     (case Atoi token of
        Inr n \<Rightarrow>
          if 1 \<le> n \<and> n \<le> int (length list) then Some (nat (n - 1), list ! nat (n - 1))
          else List.find (\<lambda>(i, path). matches token path) (enumerate 0 list)
      | Inl e \<Rightarrow> List.find (\<lambda>(i, path). matches token path) (enumerate 0 list))"

definition world_of :: "string \<Rightarrow> string \<Rightarrow> world" where
  \<comment> \<open>a world where the file has the given bytes, the working directory is \<open>dir\<close>, and
      every operation on the file succeeds\<close>
  "world_of content dir =
     \<lparr>store = Inr content, getwd = Inr dir, open_write = None, write_string = None\<rparr>"

section \<open>Facts about the library functions\<close>

lemma isSpaceRune_length: "isSpaceRune bs \<Longrightarrow> length bs = 1 \<or> length bs = 2 \<or> length bs = 3"
  by (induction bs rule: isSpaceRune.induct) simp_all

lemma leadingSpace_zero_iff: "leadingSpace s = 0 \<longleftrightarrow> (\<forall>k. \<not> isSpaceRune (take k s))"
proof
  assume z: "leadingSpace s = 0"
  show "\<forall>k. \<not> isSpaceRune (take k s)"
  proof (intro allI notI)
    fix k assume sp: "isSpaceRune (take k s)"
    define n where "n = length (take k s)"
    have "take k s = take n s" by (simp add: n_def min_def)
    moreover have "n = 1 \<or> n = 2 \<or> n = 3"
      using isSpaceRune_length [OF sp] by (simp add: n_def)
    moreover have "\<not> isSpaceRune (take 1 s)" "\<not> isSpaceRune (take 2 s)" "\<not> isSpaceRune (take 3 s)"
      using z by (simp_all add: leadingSpace_def split: if_splits)
    ultimately show False using sp by auto
  qed
next
  assume "\<forall>k. \<not> isSpaceRune (take k s)"
  then show "leadingSpace s = 0" by (simp add: leadingSpace_def)
qed

lemma trailingSpace_zero_iff: "trailingSpace s = 0 \<longleftrightarrow> (\<forall>k. \<not> isSpaceRune (drop k s))"
proof
  assume z: "trailingSpace s = 0"
  show "\<forall>k. \<not> isSpaceRune (drop k s)"
  proof (intro allI notI)
    fix k assume sp: "isSpaceRune (drop k s)"
    define n where "n = length (drop k s)"
    have "drop k s = drop (length s - n) s" by (cases "k \<le> length s") (simp_all add: n_def)
    moreover have "n = 1 \<or> n = 2 \<or> n = 3"
      using isSpaceRune_length [OF sp] by (simp add: n_def)
    moreover have "\<not> isSpaceRune (drop (length s - 1) s)" "\<not> isSpaceRune (drop (length s - 2) s)"
        "\<not> isSpaceRune (drop (length s - 3) s)"
      using z by (simp_all add: trailingSpace_def split: if_splits)
    ultimately show False using sp by auto
  qed
next
  assume "\<forall>k. \<not> isSpaceRune (drop k s)"
  then show "trailingSpace s = 0" by (simp add: trailingSpace_def)
qed

lemma leadingSpace_le: "leadingSpace s \<le> length s"
  by (cases s rule: isSpaceRune.cases) (auto simp: leadingSpace_def)

lemma TrimLeft_suffix: "\<exists>k. TrimLeft s = drop k s"
proof (induction s rule: TrimLeft.induct)
  case (1 s)
  show ?case
  proof (cases "leadingSpace s = 0")
    case True
    then have "TrimLeft s = drop 0 s" by (subst TrimLeft.simps) simp
    then show ?thesis by blast
  next
    case False
    with 1 obtain k where "TrimLeft (drop (leadingSpace s) s) = drop k (drop (leadingSpace s) s)"
      by blast
    with False have "TrimLeft s = drop (leadingSpace s + k) s"
      by (subst TrimLeft.simps) (simp add: add.commute)
    then show ?thesis by blast
  qed
qed

lemma TrimRight_prefix: "\<exists>k. TrimRight s = take k s"
proof (induction s rule: TrimRight.induct)
  case (1 s)
  show ?case
  proof (cases "trailingSpace s = 0")
    case True
    then have "TrimRight s = take (length s) s" by (subst TrimRight.simps) simp
    then show ?thesis by blast
  next
    case False
    with 1 obtain k where "TrimRight (take (length s - trailingSpace s) s) = take k (take (length s - trailingSpace s) s)"
      by blast
    with False have "TrimRight s = take (min k (length s - trailingSpace s)) s"
      by (subst TrimRight.simps) simp
    then show ?thesis by blast
  qed
qed

lemma leadingSpace_TrimLeft: "leadingSpace (TrimLeft s) = 0"
  by (induction s rule: TrimLeft.induct) (metis TrimLeft.simps)

lemma trailingSpace_TrimRight: "trailingSpace (TrimRight s) = 0"
  by (induction s rule: TrimRight.induct) (metis TrimRight.simps)

lemma leadingSpace_take: "leadingSpace s = 0 \<Longrightarrow> leadingSpace (take n s) = 0"
  by (simp add: leadingSpace_zero_iff)

lemma leadingSpace_TrimSpace: "leadingSpace (TrimSpace s) = 0"
proof -
  obtain k where "TrimRight (TrimLeft s) = take k (TrimLeft s)"
    using TrimRight_prefix by blast
  then show ?thesis
    by (simp add: TrimSpace_def leadingSpace_take leadingSpace_TrimLeft)
qed

lemma trailingSpace_TrimSpace: "trailingSpace (TrimSpace s) = 0"
  by (simp add: TrimSpace_def trailingSpace_TrimRight)

lemma TrimSpace_sublist: "\<exists>j k. TrimSpace s = take k (drop j s)"
  unfolding TrimSpace_def using TrimLeft_suffix [of s] TrimRight_prefix [of "TrimLeft s"]
  by metis

lemma set_TrimSpace: "set (TrimSpace s) \<subseteq> set s"
proof -
  obtain j k where "TrimSpace s = take k (drop j s)" using TrimSpace_sublist by blast
  then show ?thesis
    using set_take_subset [of k "drop j s"] set_drop_subset [of j s] by auto
qed

lemma length_TrimSpace: "length (TrimSpace s) \<le> length s"
proof -
  obtain j k where "TrimSpace s = take k (drop j s)" using TrimSpace_sublist by blast
  then show ?thesis by simp
qed

lemma TrimSpace_id: "leadingSpace s = 0 \<Longrightarrow> trailingSpace s = 0 \<Longrightarrow> TrimSpace s = s"
  by (simp add: TrimSpace_def TrimLeft.simps [of s] TrimRight.simps [of s])

lemma trailingSpace_last: "trailingSpace s = 0 \<Longrightarrow> s \<noteq> [] \<Longrightarrow> \<not> asciiSpace (last s)"
proof -
  assume z: "trailingSpace s = 0" and ne: "s \<noteq> []"
  have "drop (length s - 1) s = [last s]"
    using ne by (induction s rule: rev_induct) simp_all
  moreover have "\<not> isSpaceRune (drop (length s - 1) s)"
    using z by (simp add: trailingSpace_zero_iff)
  ultimately show ?thesis by simp
qed

lemma isSpaceRune_snoc_ascii: "isSpaceRune (x @ [c]) \<Longrightarrow> x \<noteq> [] \<Longrightarrow> \<not> asciiSpace c"
  by (cases x rule: isSpaceRune.cases) (auto simp: asciiSpace_def)

lemma leadingSpace_snoc:
  assumes "leadingSpace m \<noteq> 0"
  shows "leadingSpace (m @ [c]) = leadingSpace m"
proof -
  have "take k (m @ [c]) = take k m" if "k \<le> length m" for k using that by simp
  moreover have "1 \<le> length m" using assms leadingSpace_le [of m] by simp
  moreover have "leadingSpace m = 2 \<Longrightarrow> 2 \<le> length m" "leadingSpace m = 3 \<Longrightarrow> 3 \<le> length m"
    using leadingSpace_le [of m] by simp_all
  ultimately show ?thesis using assms
    by (auto simp: leadingSpace_def split: if_splits)
qed

lemma leadingSpace_snoc_zero:
  assumes "leadingSpace m = 0" "m \<noteq> []" "asciiSpace c"
  shows "leadingSpace (m @ [c]) = 0"
proof -
  have "\<not> isSpaceRune (take k (m @ [c]))" for k
  proof (cases "k \<le> length m")
    case True
    then show ?thesis using assms(1) by (simp add: leadingSpace_zero_iff)
  next
    case False
    then have "take k (m @ [c]) = m @ [c]" by simp
    then show ?thesis using isSpaceRune_snoc_ascii [of m c] assms by auto
  qed
  then show ?thesis by (simp add: leadingSpace_zero_iff)
qed

lemma TrimLeft_Nil: "TrimLeft [] = []"
  by (subst TrimLeft.simps) (simp add: leadingSpace_def)

lemma TrimRight_Nil: "TrimRight [] = []"
  by (subst TrimRight.simps) (simp add: trailingSpace_def)

lemma TrimSpace_Nil: "TrimSpace [] = []"
  by (simp add: TrimSpace_def TrimLeft_Nil TrimRight_Nil)

lemma TrimLeft_snoc:
  "asciiSpace c \<Longrightarrow> TrimLeft (m @ [c]) = (if TrimLeft m = [] then [] else TrimLeft m @ [c])"
proof (induction m rule: TrimLeft.induct)
  case (1 s)
  show ?case
  proof (cases "leadingSpace s = 0")
    case True
    then have ts: "TrimLeft s = s" by (subst TrimLeft.simps) simp
    show ?thesis
    proof (cases "s = []")
      case True
      have "leadingSpace [c] = 1" using 1(2) by (simp add: leadingSpace_def)
      then have "TrimLeft [c] = []" by (subst TrimLeft.simps) (simp add: TrimLeft_Nil)
      with True show ?thesis by (simp add: TrimLeft_Nil)
    next
      case False
      have "leadingSpace (s @ [c]) = 0"
        using leadingSpace_snoc_zero [OF True False 1(2)] .
      then have "TrimLeft (s @ [c]) = s @ [c]" by (subst TrimLeft.simps) simp
      with ts False show ?thesis by simp
    qed
  next
    case False
    have le: "leadingSpace s \<le> length s" by (rule leadingSpace_le)
    have "TrimLeft (s @ [c]) = TrimLeft (drop (leadingSpace s) s @ [c])"
      using False le by (subst TrimLeft.simps) (simp add: leadingSpace_snoc)
    moreover have "TrimLeft s = TrimLeft (drop (leadingSpace s) s)"
      using False by (subst TrimLeft.simps) simp
    ultimately show ?thesis using 1(1) [OF False 1(2)] by simp
  qed
qed

lemma TrimRight_snoc: "asciiSpace c \<Longrightarrow> TrimRight (m @ [c]) = TrimRight m"
proof -
  assume "asciiSpace c"
  then have "trailingSpace (m @ [c]) = 1" by (simp add: trailingSpace_def)
  then show ?thesis by (subst TrimRight.simps) simp
qed

lemma TrimSpace_snoc: "asciiSpace c \<Longrightarrow> TrimSpace (m @ [c]) = TrimSpace m"
  by (simp add: TrimSpace_def TrimLeft_snoc TrimRight_snoc TrimRight_Nil)

lemma TrimSpace_dropCR: "TrimSpace (dropCR s) = TrimSpace s"
proof (cases "s \<noteq> [] \<and> last s = cr")
  case True
  then have "s = butlast s @ [cr]" by (metis append_butlast_last_id)
  then have "TrimSpace s = TrimSpace (butlast s)"
    using TrimSpace_snoc [of cr "butlast s"] by (simp add: asciiSpace_def)
  with True show ?thesis by (simp add: dropCR_def)
next
  case False
  then show ?thesis by (auto simp: dropCR_def)
qed

lemma entry_dropCR: "entry s \<Longrightarrow> dropCR s = s"
  using trailingSpace_last [of s] by (auto simp: entry_def dropCR_def asciiSpace_def)

lemma entry_TrimSpace: "entry s \<Longrightarrow> TrimSpace s = s"
  by (simp add: entry_def TrimSpace_id)

section \<open>Facts about reading and writing the file\<close>

lemma Scan_Nil: "Scan [] = Stop None"
  by (simp add: Scan_def)

lemma scan_loop_Nil: "scan_loop [] acc = (acc, None)"
  by (subst scan_loop.simps) (simp add: Scan_Nil)

lemma Scan_line:
  assumes "nl \<notin> set l" "length l < MaxScanTokenSize"
  shows "Scan (l @ nl # rest) = Token (dropCR l) rest"
proof -
  have "takeWhile (\<lambda>c. c \<noteq> nl) (l @ nl # rest) = l"
    using assms(1) by (induction l) auto
  moreover have "dropWhile (\<lambda>c. c \<noteq> nl) (l @ nl # rest) = nl # rest"
    using assms(1) by (induction l) auto
  ultimately show ?thesis using assms(2) by (simp add: Scan_def)
qed

lemma Scan_too_long:
  assumes "nl \<notin> set l" "MaxScanTokenSize \<le> length l"
  shows "Scan (l @ nl # rest) = Stop (Some ErrTooLong)"
proof -
  have "takeWhile (\<lambda>c. c \<noteq> nl) (l @ nl # rest) = l"
    using assms(1) by (induction l) auto
  then show ?thesis using assms(2) by (simp add: Scan_def)
qed

lemma Scan_last_too_long:
  assumes "nl \<notin> set l" "MaxScanTokenSize \<le> length l"
  shows "Scan l = Stop (Some ErrTooLong)"
proof -
  have tw: "takeWhile (\<lambda>c. c \<noteq> nl) l = l"
    using assms(1) by (induction l) auto
  have "l \<noteq> []" using assms(2) by (auto simp: MaxScanTokenSize_def)
  then show ?thesis using assms(2) unfolding Scan_def Let_def tw by simp
qed

lemma scan_loop_entry:
  assumes "entry e"
  shows "scan_loop (e @ nl # rest) acc = scan_loop rest (acc @ [e])"
proof -
  have "Scan (e @ nl # rest) = Token (dropCR e) rest"
    using assms by (intro Scan_line) (simp_all add: entry_def)
  moreover have "TrimSpace (dropCR e) = e"
    using assms by (simp add: entry_dropCR entry_TrimSpace)
  moreover have "e \<noteq> []" using assms by (simp add: entry_def)
  ultimately show ?thesis by (subst scan_loop.simps) simp
qed

lemma scan_loop_file_of:
  "\<forall>e \<in> set fs. entry e \<Longrightarrow> scan_loop (file_of fs @ rest) acc = scan_loop rest (acc @ fs)"
proof (induction fs arbitrary: acc)
  case Nil
  then show ?case by (simp add: file_of_def)
next
  case (Cons e fs)
  have "file_of (e # fs) @ rest = e @ nl # (file_of fs @ rest)"
    by (simp add: file_of_def)
  then show ?case using Cons by (simp add: scan_loop_entry)
qed

lemma write_all_ok: "write_all None content fs = (content @ file_of fs, None)"
  by (induction fs arbitrary: content) (simp_all add: file_of_def)

lemma kept_Nil: "kept [] = []"
  by (simp add: kept_def TrimSpace_Nil)

lemma scan_loop_line:
  assumes "nl \<notin> set l"
  shows "scan_loop (l @ nl # r) acc =
           (if MaxScanTokenSize \<le> length l then (acc, Some ErrTooLong)
            else scan_loop r (acc @ kept l))"
proof (cases "MaxScanTokenSize \<le> length l")
  case True
  then show ?thesis
    using Scan_too_long [OF assms True, of r] by (subst scan_loop.simps) simp
next
  case False
  then have "Scan (l @ nl # r) = Token (dropCR l) r"
    using Scan_line [OF assms, of r] by simp
  with False show ?thesis
    by (subst scan_loop.simps) (simp add: TrimSpace_dropCR kept_def)
qed

lemma scan_loop_last:
  assumes "nl \<notin> set l"
  shows "scan_loop l acc =
           (if MaxScanTokenSize \<le> length l then (acc, Some ErrTooLong)
            else (acc @ kept l, None))"
proof (cases "l = []")
  case True
  then show ?thesis by (simp add: scan_loop_Nil kept_Nil MaxScanTokenSize_def)
next
  case ne: False
  show ?thesis
  proof (cases "MaxScanTokenSize \<le> length l")
    case True
    then show ?thesis
      using Scan_last_too_long [OF assms True] by (subst scan_loop.simps) simp
  next
    case False
    have tw: "takeWhile (\<lambda>c. c \<noteq> nl) l = l" using assms by (induction l) auto
    have dw: "dropWhile (\<lambda>c. c \<noteq> nl) l = []" using assms by (induction l) auto
    have "Scan l = Token (dropCR l) []"
      using ne False unfolding Scan_def Let_def tw dw by simp
    with False show ?thesis
      by (subst scan_loop.simps) (simp add: TrimSpace_dropCR kept_def scan_loop_Nil)
  qed
qed

lemma lines_of_nonempty: "lines_of s \<noteq> []"
  by (induction s) auto

lemma lines_of_last: "nl \<notin> set l \<Longrightarrow> lines_of l = [l]"
  by (induction l) auto

lemma lines_of_line: "nl \<notin> set l \<Longrightarrow> lines_of (l @ nl # r) = l # lines_of r"
  by (induction l) auto

lemma scan_loop_lines:
  "snd (scan_loop data acc) =
     (if \<exists>l \<in> set (lines_of data). MaxScanTokenSize \<le> length l then Some ErrTooLong else None)
   \<and> (\<not> (\<exists>l \<in> set (lines_of data). MaxScanTokenSize \<le> length l) \<longrightarrow>
        fst (scan_loop data acc) = acc @ concat (map kept (lines_of data)))"
proof (induction "length data" arbitrary: data acc rule: less_induct)
  case less
  show ?case
  proof (cases "nl \<in> set data")
    case False
    then show ?thesis
      by (simp add: scan_loop_last lines_of_last)
  next
    case True
    then obtain l r where d: "data = l @ nl # r" and l: "nl \<notin> set l"
      using split_list_first [of nl data] by blast
    have "length r < length data" using d by simp
    from less [OF this, of "acc @ kept l"] show ?thesis
      unfolding d by (simp add: scan_loop_line [OF l] lines_of_line [OF l])
  qed
qed

lemma concat_kept: "concat (map kept ls) = filter (\<lambda>l. l \<noteq> []) (map TrimSpace ls)"
  by (induction ls) (simp_all add: kept_def)

lemma kept_entry: "nl \<notin> set l \<Longrightarrow> length l < MaxScanTokenSize \<Longrightarrow> e \<in> set (kept l) \<Longrightarrow> entry e"
  using set_TrimSpace [of l] length_TrimSpace [of l]
  by (auto simp: kept_def entry_def leadingSpace_TrimSpace trailingSpace_TrimSpace split: if_splits)

lemma lines_of_no_nl: "l \<in> set (lines_of s) \<Longrightarrow> nl \<notin> set l"
proof (induction s arbitrary: l)
  case Nil
  then show ?case by simp
next
  case (Cons c cs)
  show ?case
  proof (cases "c = nl")
    case True
    with Cons show ?thesis by auto
  next
    case False
    obtain h t where ht: "lines_of cs = h # t"
      using lines_of_nonempty [of cs] by (cases "lines_of cs") auto
    with False Cons.prems have "l = c # h \<or> l \<in> set t" by auto
    then show ?thesis using Cons.IH [of h] Cons.IH [of l] ht False by auto
  qed
qed

lemma lines_of_append: "lines_of (c @ nl # d) = lines_of c @ lines_of d"
proof (induction c)
  case Nil
  then show ?case by simp
next
  case (Cons x cs)
  obtain h t where "lines_of cs = h # t"
    using lines_of_nonempty [of cs] by (cases "lines_of cs") auto
  with Cons show ?case by simp
qed

lemma readFolderList_lines:
  assumes "store w = Inr content"
  shows "readFolderList w =
           (if \<exists>l \<in> set (lines_of content). MaxScanTokenSize \<le> length l then Inl ErrTooLong
            else Inr (concat (map kept (lines_of content))))"
  using scan_loop_lines [of content "[]"] assms
  by (cases "scan_loop content []") (auto simp: readFolderList_def)

lemma readFolderList_entries:
  assumes "readFolderList w = Inr fs" "e \<in> set fs"
  shows "entry e"
proof -
  obtain content where c: "store w = Inr content"
    using assms(1) by (cases "store w") (auto simp: readFolderList_def)
  from readFolderList_lines [OF c] assms(1)
  have short: "\<forall>l \<in> set (lines_of content). length l < MaxScanTokenSize"
    and fs: "fs = concat (map kept (lines_of content))"
    by (auto split: if_splits simp: not_le)
  from assms(2) fs obtain l where "l \<in> set (lines_of content)" "e \<in> set (kept l)" by auto
  then show ?thesis using kept_entry [of l e] lines_of_no_nl [of l content] short by blast
qed

lemma kept_entry_eq: "entry p \<Longrightarrow> kept p = [p]"
  by (simp add: kept_def entry_TrimSpace entry_def)

lemma readFolderList_append:
  assumes "store w = Inr content" "content = [] \<or> last content = nl"
    and "readFolderList w = Inr fs" "entry p"
  shows "readFolderList (w\<lparr>store := Inr (content @ p @ [nl])\<rparr>) = Inr (fs @ [p])"
proof -
  have p: "nl \<notin> set p" "length p < MaxScanTokenSize" using assms(4) by (simp_all add: entry_def)
  from readFolderList_lines [OF assms(1)] assms(3)
  have short: "\<forall>l \<in> set (lines_of content). \<not> MaxScanTokenSize \<le> length l"
    and fs: "fs = concat (map kept (lines_of content))"
    by (auto split: if_splits)
  have "\<exists>ls. lines_of (content @ p @ [nl]) = ls @ [p, []] \<and> lines_of content = ls @ [[]]"
  proof (cases "content = []")
    case True
    then show ?thesis using lines_of_line [OF p(1), of "[]"] by simp
  next
    case False
    with assms(2) obtain c where c: "content = c @ [nl]"
      by (metis append_butlast_last_id)
    have "lines_of content = lines_of c @ [[]]" using lines_of_append [of c "[]"] c by simp
    moreover have "lines_of (content @ p @ [nl]) = lines_of c @ [p, []]"
      using lines_of_append [of c "p @ [nl]"] lines_of_line [OF p(1), of "[]"] c by simp
    ultimately show ?thesis by blast
  qed
  then obtain ls where new: "lines_of (content @ p @ [nl]) = ls @ [p, []]"
    and old: "lines_of content = ls @ [[]]" by blast
  have "\<not> (\<exists>l \<in> set (lines_of (content @ p @ [nl])). MaxScanTokenSize \<le> length l)"
    using short p(2) unfolding new old by (auto simp: MaxScanTokenSize_def)
  moreover have "concat (map kept (lines_of (content @ p @ [nl]))) = fs @ [p]"
    unfolding new fs old using assms(4) by (simp add: kept_Nil kept_entry_eq)
  ultimately show ?thesis
    using readFolderList_lines [of "w\<lparr>store := Inr (content @ p @ [nl])\<rparr>" "content @ p @ [nl]"]
    by simp
qed

lemma readFolderList_file_of:
  assumes "\<forall>e \<in> set fs. entry e"
  shows "readFolderList (w\<lparr>store := Inr (file_of fs)\<rparr>) = Inr fs"
  using scan_loop_file_of [OF assms, of "[]" "[]"]
  by (simp add: readFolderList_def scan_loop_Nil)

section \<open>Facts about the resolver\<close>

lemma digitChar_digit: "d < 10 \<Longrightarrow> isDigit (digitChar d) \<and> digitVal (digitChar d) = d"
  by (simp add: isDigit_def digitVal_def digitChar_def)

lemma ParseUint_loop_snoc:
  "ParseUint_loop a (xs @ [c]) =
     (case ParseUint_loop a xs of Inl e \<Rightarrow> Inl e | Inr m \<Rightarrow> ParseUint_loop m [c])"
  by (induction xs arbitrary: a) simp_all

lemma ParseUint_loop_itoa: "n < 2 ^ 64 \<Longrightarrow> ParseUint_loop 0 (itoa n) = Inr n"
proof (induction n rule: itoa.induct)
  case (1 n)
  show ?case
  proof (cases "n < 10")
    case True
    then show ?thesis
      using digitChar_digit [of n] by (subst itoa.simps) simp
  next
    case False
    have "n div 10 < 2 ^ 64" using 1(2) by simp
    with 1(1) False have ih: "ParseUint_loop 0 (itoa (n div 10)) = Inr (n div 10)" by simp
    have d: "isDigit (digitChar (n mod 10))" "digitVal (digitChar (n mod 10)) = n mod 10"
      using digitChar_digit [of "n mod 10"] by simp_all
    have "n div 10 < (2 ^ 64 - 1) div 10 + 1" using 1(2) by simp
    moreover have "n div 10 * 10 + n mod 10 = n" by simp
    ultimately have "ParseUint_loop (n div 10) [digitChar (n mod 10)] = Inr n"
      using d 1(2) by simp
    with ih False show ?thesis
      by (subst itoa.simps) (simp add: ParseUint_loop_snoc)
  qed
qed

lemma itoa_digits: "c \<in> set (itoa n) \<Longrightarrow> isDigit c"
proof (induction n rule: itoa.induct)
  case (1 n)
  show ?case
  proof (cases "n < 10")
    case True
    with 1(2) show ?thesis
      using digitChar_digit [of n] by (subst (asm) itoa.simps) simp
  next
    case False
    with 1 show ?thesis
      using digitChar_digit [of "n mod 10"] by (subst (asm) (2) itoa.simps) auto
  qed
qed

lemma itoa_nonempty: "itoa n \<noteq> []"
  by (subst itoa.simps) simp

lemma Atoi_itoa:
  assumes "n < 2 ^ 63"
  shows "Atoi (itoa n) = Inr (int n)"
proof -
  have "hd (itoa n) \<in> set (itoa n)" using itoa_nonempty by simp
  then have "isDigit (hd (itoa n))" by (rule itoa_digits)
  then have "hd (itoa n) \<noteq> CHR ''+''" "hd (itoa n) \<noteq> CHR ''-''"
    by (auto simp: isDigit_def)
  moreover have "ParseUint (itoa n) = Inr n"
    using assms ParseUint_loop_itoa [of n] by (simp add: ParseUint_def itoa_nonempty)
  ultimately show ?thesis
    using assms by (simp add: Atoi_def ParseInt_def itoa_nonempty)
qed

lemma atoi_index_itoa:
  assumes "0 < n" "n \<le> length fs" "length fs < 2 ^ 63"
  shows "atoi_index (itoa n) fs = Some (int n)"
  using assms Atoi_itoa [of n] by (simp add: atoi_index_def)

lemma atoi_index_Some:
  "atoi_index arg fs = Some num \<longleftrightarrow> Atoi arg = Inr num \<and> 1 \<le> num \<and> num \<le> int (length fs)"
  by (auto simp: atoi_index_def split: sum.splits)

lemma atoi_index_None:
  "atoi_index arg fs = None \<longleftrightarrow> \<not> (\<exists>n. Atoi arg = Inr n \<and> 1 \<le> n \<and> n \<le> int (length fs))"
  by (auto simp: atoi_index_def split: sum.splits)

lemma remove_match_cases:
  "(remove_match arg i fs = - 1 \<and> jump_match arg fs = None \<and> (\<forall>f \<in> set fs. \<not> matches arg f))
   \<or> (\<exists>k < length fs. remove_match arg i fs = int (i + k) \<and> jump_match arg fs = Some (fs ! k)
         \<and> matches arg (fs ! k) \<and> (\<forall>j < k. \<not> matches arg (fs ! j)))"
proof (induction fs arbitrary: i)
  case Nil
  then show ?case by simp
next
  case (Cons f fs)
  show ?case
  proof (cases "matches arg f")
    case True
    then have "remove_match arg i (f # fs) = int (i + 0) \<and> jump_match arg (f # fs) = Some ((f # fs) ! 0)
        \<and> matches arg ((f # fs) ! 0) \<and> (\<forall>j < 0. \<not> matches arg ((f # fs) ! j))"
      by (simp add: matches_def)
    then show ?thesis by blast
  next
    case False
    from Cons [of "i + 1"] show ?thesis
    proof
      assume "remove_match arg (i + 1) fs = - 1 \<and> jump_match arg fs = None
          \<and> (\<forall>f \<in> set fs. \<not> matches arg f)"
      with False show ?thesis by (simp add: matches_def)
    next
      assume "\<exists>k < length fs. remove_match arg (i + 1) fs = int (i + 1 + k)
          \<and> jump_match arg fs = Some (fs ! k) \<and> matches arg (fs ! k)
          \<and> (\<forall>j < k. \<not> matches arg (fs ! j))"
      then obtain k where k: "k < length fs" "remove_match arg (i + 1) fs = int (i + 1 + k)"
        "jump_match arg fs = Some (fs ! k)" "matches arg (fs ! k)"
        "\<forall>j < k. \<not> matches arg (fs ! j)" by blast
      have "\<forall>j < Suc k. \<not> matches arg ((f # fs) ! j)"
        using False k(5) by (auto simp: nth_Cons split: nat.splits)
      with k False have "Suc k < length (f # fs) \<and> remove_match arg i (f # fs) = int (i + Suc k)
          \<and> jump_match arg (f # fs) = Some ((f # fs) ! Suc k) \<and> matches arg ((f # fs) ! Suc k)
          \<and> (\<forall>j < Suc k. \<not> matches arg ((f # fs) ! j))"
        by (simp add: matches_def)
      then show ?thesis by blast
    qed
  qed
qed

lemma find_enumerate:
  "List.find (\<lambda>(i, path). matches arg path) (enumerate i fs) =
     (if remove_match arg i fs = - 1 then None
      else Some (nat (remove_match arg i fs), fs ! (nat (remove_match arg i fs) - i)))"
proof (induction fs arbitrary: i)
  case Nil
  then show ?case by simp
next
  case (Cons f fs)
  show ?case
  proof (cases "matches arg f")
    case True
    then show ?thesis by (simp add: matches_def)
  next
    case False
    have "remove_match arg (Suc i) fs = - 1 \<or> (\<exists>k. remove_match arg (Suc i) fs = int (Suc i + k))"
      using remove_match_cases [of arg "Suc i" fs] by auto
    then show ?thesis
    proof
      assume "remove_match arg (Suc i) fs = - 1"
      with False Cons [of "Suc i"] show ?thesis by (simp add: matches_def)
    next
      assume "\<exists>k. remove_match arg (Suc i) fs = int (Suc i + k)"
      then obtain k where "remove_match arg (Suc i) fs = int (Suc i + k)" by blast
      with False Cons [of "Suc i"] show ?thesis by (simp add: matches_def)
    qed
  qed
qed

section \<open>The claims\<close>

lemma first_match_unique:
  assumes "matches token (list ! i)" "\<forall>j < i. \<not> matches token (list ! j)"
    and "matches token (list ! k)" "\<forall>j < k. \<not> matches token (list ! j)"
  shows "i = k"
  using assms by (meson linorder_neqE_nat)

text \<open>
  C1.  The resolver of \<^verbatim>\<open>jumpToFolder\<close>: a token that \<^verbatim>\<open>strconv.Atoi\<close> parses as an
  integer \<open>n\<close> with \<open>1 \<le> n \<le> length list\<close> yields the element at position \<open>n - 1\<close>;
  any other token yields the first entry in list order whose base name or whose full path
  equals the token; when no entry does, nothing is found.
\<close>

theorem resolver_contract:
  "(\<forall>n. Atoi token = Inr n \<and> 1 \<le> n \<and> n \<le> int (length list) \<longrightarrow>
        jump_target token list = Some (list ! nat (n - 1)))
   \<and> (\<not> (\<exists>n. Atoi token = Inr n \<and> 1 \<le> n \<and> n \<le> int (length list)) \<longrightarrow>
        (\<forall>i < length list.
            matches token (list ! i) \<and> (\<forall>j < i. \<not> matches token (list ! j)) \<longrightarrow>
            jump_target token list = Some (list ! i))
        \<and> ((\<forall>path \<in> set list. \<not> matches token path) \<longrightarrow> jump_target token list = None))"
proof (intro conjI allI impI)
  fix n assume "Atoi token = Inr n \<and> 1 \<le> n \<and> n \<le> int (length list)"
  then have "atoi_index token list = Some n" by (simp add: atoi_index_Some)
  then show "jump_target token list = Some (list ! nat (n - 1))"
    by (simp add: jump_target_def)
next
  fix i
  assume no: "\<not> (\<exists>n. Atoi token = Inr n \<and> 1 \<le> n \<and> n \<le> int (length list))"
    and i: "i < length list"
    and m: "matches token (list ! i) \<and> (\<forall>j < i. \<not> matches token (list ! j))"
  from no have "atoi_index token list = None" using atoi_index_None by blast
  then have t: "jump_target token list = jump_match token list"
    by (simp add: jump_target_def)
  from remove_match_cases [of token 0 list] m i
  obtain k where k: "k < length list" "jump_match token list = Some (list ! k)"
    "matches token (list ! k)" "\<forall>j < k. \<not> matches token (list ! j)"
    by (metis nth_mem)
  have "i = k" using first_match_unique m k by blast
  with t k show "jump_target token list = Some (list ! i)" by simp
next
  assume no: "\<not> (\<exists>n. Atoi token = Inr n \<and> 1 \<le> n \<and> n \<le> int (length list))"
    and none: "\<forall>path \<in> set list. \<not> matches token path"
  from no have "atoi_index token list = None" using atoi_index_None by blast
  then have t: "jump_target token list = jump_match token list"
    by (simp add: jump_target_def)
  from remove_match_cases [of token 0 list] none have "jump_match token list = None"
    by (metis nth_mem)
  with t show "jump_target token list = None" by simp
qed

lemma Atoi_1: "Atoi ''1'' = Inr 1"
  by (simp add: Atoi_def ParseInt_def ParseUint_def isDigit_def digitVal_def)

lemma Atoi_99: "Atoi ''99'' = Inr 99"
  by (simp add: Atoi_def ParseInt_def ParseUint_def isDigit_def digitVal_def)

lemma Atoi_d: "Atoi ''d'' = Inl ErrSyntax"
  by (simp add: Atoi_def ParseInt_def ParseUint_def isDigit_def digitVal_def)

theorem resolver_contract_witness:
  "Atoi ''1'' = Inr 1 \<and> jump_target ''1'' [''/a/b'', ''/c/d''] = Some ''/a/b''
   \<and> Atoi ''d'' = Inl ErrSyntax \<and> matches ''d'' ''/c/d'' \<and> \<not> matches ''d'' ''/a/b''
   \<and> jump_target ''d'' [''/a/b'', ''/c/d''] = Some ''/c/d''
   \<and> Atoi ''99'' = Inr 99 \<and> \<not> matches ''99'' ''/a/b'' \<and> \<not> matches ''99'' ''/c/d''
   \<and> jump_target ''99'' [''/a/b'', ''/c/d''] = None"
proof -
  let ?l = "[''/a/b'', ''/c/d'']"
  have m: "matches ''d'' ''/c/d''" "\<not> matches ''d'' ''/a/b''"
    "\<not> matches ''99'' ''/a/b''" "\<not> matches ''99'' ''/c/d''"
    by (simp_all add: matches_def Base_def)
  have a: "jump_target ''1'' ?l = Some ''/a/b''"
    using resolver_contract [of "''1''" ?l] by (simp add: Atoi_1)
  have "\<forall>i < length ?l. matches ''d'' (?l ! i) \<and> (\<forall>j < i. \<not> matches ''d'' (?l ! j)) \<longrightarrow>
            jump_target ''d'' ?l = Some (?l ! i)"
    using resolver_contract [of "''d''" ?l] by (simp only: Atoi_d) simp
  from this [rule_format, of 1] m have b: "jump_target ''d'' ?l = Some ''/c/d''"
    by (simp add: less_Suc_eq)
  have c: "jump_target ''99'' ?l = None"
    using resolver_contract [of "''99''" ?l] m by (simp add: Atoi_99)
  show ?thesis using a b c m by (simp add: Atoi_1 Atoi_d Atoi_99)
qed

lemma entry_no_trailing_nl: "entry path \<Longrightarrow> path \<noteq> [] \<and> last path \<noteq> nl"
  using trailingSpace_last [of path] by (auto simp: entry_def asciiSpace_def)

lemma entry_literals:
  "entry ''/a/b''" "entry ''/c/d''" "entry ''/a''" "entry ''/home/u/proj''" "entry ''/home/u/docs''"
  by (simp_all add: entry_def leadingSpace_def trailingSpace_def asciiSpace_def
      MaxScanTokenSize_def)

lemma readFolderList_world_of_file_of:
  "\<forall>e \<in> set fs. entry e \<Longrightarrow> readFolderList (world_of (file_of fs) dir) = Inr fs"
  using readFolderList_file_of [of fs "world_of [] dir"] by (simp add: world_of_def)

lemma readFolderList_empty: "readFolderList (world_of [] dir) = Inr []"
  by (simp add: readFolderList_def world_of_def scan_loop_Nil)

text \<open>
  C10.  Remove on an empty list: for every token, when the list that is read is empty,
  \<^verbatim>\<open>removeFolder\<close> prints the line \<^verbatim>\<open>No folders in jump list.\<close> to standard output,
  writes nothing to standard error, exits with status 0 and leaves the world, the file
  included, as it was.
\<close>

theorem remove_on_empty_store:
  "readFolderList w = Inr [] \<Longrightarrow>
   removeFolder w token =
     \<lparr>stdout = ''No folders in jump list.'' @ [nl], stderr = [], exit_code = 0, final = w\<rparr>"
  by (simp add: removeFolder_def return0_def)

theorem remove_on_empty_store_witness:
  "readFolderList (world_of [] ''/'') = Inr []
   \<and> removeFolder (world_of [] ''/'') ''proj'' =
       \<lparr>stdout = ''No folders in jump list.'' @ [nl], stderr = [], exit_code = 0,
        final = world_of [] ''/''\<rparr>"
  using remove_on_empty_store [of "world_of [] ''/''" "''proj''"]
  by (simp add: readFolderList_empty)

text \<open>
  C3, as the specification states it, fails on the empty list: there \<^verbatim>\<open>removeFolder\<close>
  returns before it looks at the token, prints to standard output and exits with
  status 0.
\<close>

theorem remove_not_found_counterexample:
  "readFolderList (world_of [] ''/'') = Inr []
   \<and> exit_code (removeFolder (world_of [] ''/'') ''proj'') = 0
   \<and> stderr (removeFolder (world_of [] ''/'') ''proj'') = []"
  by (simp add: readFolderList_empty removeFolder_def return0_def)

lemma index_to_remove_none:
  assumes "\<not> (\<exists>n. Atoi token = Inr n \<and> 1 \<le> n \<and> n \<le> int (length folders))"
    and "\<forall>path \<in> set folders. \<not> matches token path"
  shows "index_to_remove token folders = - 1"
proof -
  from assms(1) have "atoi_index token folders = None" using atoi_index_None by blast
  moreover from remove_match_cases [of token 0 folders] assms(2)
  have "remove_match token 0 folders = - 1" by (metis nth_mem)
  ultimately show ?thesis by (simp add: index_to_remove_def)
qed

text \<open>
  C3, amended.  For every list that is not empty and every token that matches no entry
  (\<^verbatim>\<open>strconv.Atoi\<close> does not parse it as an integer from 1 to the length of the list, and
  no base name and no full path equals it), \<^verbatim>\<open>removeFolder\<close> writes
  \<^verbatim>\<open>Folder not found: \<close> and the token to standard error, exits with status 1 and leaves
  the world, the file included, as it was.
\<close>

theorem remove_not_found:
  assumes "readFolderList w = Inr folders" and "folders \<noteq> []"
    and "\<not> (\<exists>n. Atoi token = Inr n \<and> 1 \<le> n \<and> n \<le> int (length folders))"
    and "\<forall>path \<in> set folders. \<not> matches token path"
  shows "removeFolder w token =
           \<lparr>stdout = [], stderr = ''Folder not found: '' @ token @ [nl], exit_code = 1,
            final = w\<rparr>"
  using assms(1,2) index_to_remove_none [OF assms(3,4)]
  by (simp add: removeFolder_def exit1_def)

theorem remove_not_found_witness:
  "readFolderList (world_of (file_of [''/a/b'', ''/c/d'']) ''/'') = Inr [''/a/b'', ''/c/d'']
   \<and> [''/a/b'', ''/c/d''] \<noteq> []
   \<and> Atoi ''99'' = Inr 99 \<and> \<not> 99 \<le> int (length [''/a/b'', ''/c/d''])
   \<and> \<not> matches ''99'' ''/a/b'' \<and> \<not> matches ''99'' ''/c/d''
   \<and> removeFolder (world_of (file_of [''/a/b'', ''/c/d'']) ''/'') ''99'' =
       \<lparr>stdout = [], stderr = ''Folder not found: 99'' @ [nl], exit_code = 1,
        final = world_of (file_of [''/a/b'', ''/c/d'']) ''/''\<rparr>"
proof -
  let ?w = "world_of (file_of [''/a/b'', ''/c/d'']) ''/''"
  have r: "readFolderList ?w = Inr [''/a/b'', ''/c/d'']"
    by (rule readFolderList_world_of_file_of) (simp add: entry_literals)
  have m: "\<not> matches ''99'' ''/a/b''" "\<not> matches ''99'' ''/c/d''"
    by (simp_all add: matches_def Base_def)
  have "removeFolder ?w ''99'' =
       \<lparr>stdout = [], stderr = ''Folder not found: '' @ ''99'' @ [nl], exit_code = 1, final = ?w\<rparr>"
    using m by (intro remove_not_found [OF r]) (simp_all add: Atoi_99)
  then show ?thesis using r m by (simp add: Atoi_99)
qed

lemma print_folders_concat:
  "print_folders i folders =
     concat (map (\<lambda>k. itoa (i + k + 1) @ ''. '' @ folders ! k @ [nl]) [0..<length folders])"
proof (induction folders arbitrary: i)
  case Nil
  then show ?case by simp
next
  case (Cons f fs)
  have "[0..<length (f # fs)] = 0 # map Suc [0..<length fs]"
    by (simp add: upt_conv_Cons map_Suc_upt del: upt_Suc)
  then show ?case using Cons [of "i + 1"] by (simp add: comp_def del: upt_Suc)
qed

lemma itoa_1: "itoa 1 = ''1''"
  by (subst itoa.simps) (simp add: digitChar_def char_of_eq_iff)

lemma itoa_Suc_0: "itoa (Suc 0) = ''1''"
  using itoa_1 by simp

lemma itoa_2: "itoa 2 = ''2''"
  by (subst itoa.simps) (simp add: digitChar_def char_of_eq_iff)

lemma itoa_Suc_Suc_0: "itoa (Suc (Suc 0)) = ''2''"
  using itoa_2 by (simp add: numeral_2_eq_2)

lemma addFolder_fresh:
  assumes "store w = Inr content" "getwd w = Inr p" "readFolderList w = Inr fs" "p \<notin> set fs"
    and "open_write w = None" "write_string w = None"
  shows "addFolder w =
           \<lparr>stdout = ''Added current folder to jump list: '' @ p @ [nl], stderr = [],
            exit_code = 0, final = w\<lparr>store := Inr (content @ p @ [nl])\<rparr>\<rparr>"
  using assms by (simp add: addFolder_def return0_def appended_def)

lemma addFolder_present:
  assumes "getwd w = Inr p" "readFolderList w = Inr fs" "p \<in> set fs"
  shows "addFolder w =
           \<lparr>stdout = ''Current folder already in the list: '' @ p @ [nl], stderr = [],
            exit_code = 0, final = w\<rparr>"
  using assms by (simp add: addFolder_def return0_def)

lemma world_of_simps:
  "store (world_of content dir) = Inr content" "getwd (world_of content dir) = Inr dir"
  "open_write (world_of content dir) = None" "write_string (world_of content dir) = None"
  "(world_of content dir)\<lparr>store := Inr c\<rparr> = world_of c dir"
  "(world_of content dir)\<lparr>getwd := Inr d\<rparr> = world_of content d"
  by (simp_all add: world_of_def)

lemma add_to_empty:
  "final (addFolder (world_of [] p)) = world_of (file_of [p]) p"
  using addFolder_fresh [of "world_of [] p" "[]" p "[]"]
  by (simp add: world_of_simps readFolderList_empty file_of_def)

text \<open>
  C4, as the specification states it, fails: after \<^verbatim>\<open>add\<close> from \<^verbatim>\<open>/home/u/proj\<close> on
  an empty file the output of \<^verbatim>\<open>list\<close> is not the line \<^verbatim>\<open>1. /home/u/proj\<close> alone.
  \<^verbatim>\<open>listFolders\<close> first prints the header line \<^verbatim>\<open>Available folders:\<close>.
\<close>

theorem list_output_counterexample:
  "stdout (listFolders (final (addFolder (world_of [] ''/home/u/proj'')))) =
     ''Available folders:'' @ [nl] @ ''1. /home/u/proj'' @ [nl]
   \<and> stdout (listFolders (final (addFolder (world_of [] ''/home/u/proj'')))) \<noteq>
     ''1. /home/u/proj'' @ [nl]
   \<and> stdout (listFolders (final (addFolder (world_of [] ''/home/u/proj'')))) \<noteq>
     ''1. /home/u/proj''"
proof -
  have r: "readFolderList (world_of (file_of [''/home/u/proj'']) ''/home/u/proj'')
      = Inr [''/home/u/proj'']"
    by (rule readFolderList_world_of_file_of) (simp add: entry_literals)
  have "stdout (listFolders (final (addFolder (world_of [] ''/home/u/proj'')))) =
       ''Available folders:'' @ [nl] @ ''1. /home/u/proj'' @ [nl]"
    unfolding add_to_empty using r by (simp add: listFolders_def return0_def itoa_Suc_0)
  then show ?thesis by simp
qed

text \<open>
  C4, amended.  The list verb on a list that is not empty: standard output is the line
  \<^verbatim>\<open>Available folders:\<close> followed by one line per stored path, in stored order, the
  path at position \<open>k\<close> (from 0) written as the decimal number \<open>k + 1\<close>, a period, a space
  and the path; the exit status is 0.  In particular, after \<^verbatim>\<open>add\<close> from
  \<^verbatim>\<open>/home/u/proj\<close> on an empty file, the output of \<^verbatim>\<open>list\<close> is that header and the
  line \<^verbatim>\<open>1. /home/u/proj\<close>.
\<close>

theorem list_output:
  "(\<forall>folders. readFolderList w = Inr folders \<and> folders \<noteq> [] \<longrightarrow>
       listFolders w =
         \<lparr>stdout = ''Available folders:'' @ [nl] @
            concat (map (\<lambda>k. itoa (k + 1) @ ''. '' @ folders ! k @ [nl]) [0..<length folders]),
          stderr = [], exit_code = 0, final = w\<rparr>)
   \<and> readFolderList (final (addFolder (world_of [] ''/home/u/proj''))) = Inr [''/home/u/proj'']
   \<and> stdout (listFolders (final (addFolder (world_of [] ''/home/u/proj'')))) =
       ''Available folders:'' @ [nl] @ ''1. /home/u/proj'' @ [nl]"
proof (intro conjI)
  show "\<forall>folders. readFolderList w = Inr folders \<and> folders \<noteq> [] \<longrightarrow>
       listFolders w =
         \<lparr>stdout = ''Available folders:'' @ [nl] @
            concat (map (\<lambda>k. itoa (k + 1) @ ''. '' @ folders ! k @ [nl]) [0..<length folders]),
          stderr = [], exit_code = 0, final = w\<rparr>"
    by (simp add: listFolders_def return0_def print_folders_concat)
  have r: "readFolderList (world_of (file_of [''/home/u/proj'']) ''/home/u/proj'')
      = Inr [''/home/u/proj'']"
    by (rule readFolderList_world_of_file_of) (simp add: entry_literals)
  then show "readFolderList (final (addFolder (world_of [] ''/home/u/proj'')))
      = Inr [''/home/u/proj'']"
    by (simp only: add_to_empty)
  show "stdout (listFolders (final (addFolder (world_of [] ''/home/u/proj'')))) =
       ''Available folders:'' @ [nl] @ ''1. /home/u/proj'' @ [nl]"
    unfolding add_to_empty using r by (simp add: listFolders_def return0_def itoa_Suc_0)
qed

theorem list_output_witness:
  "readFolderList (world_of (file_of [''/home/u/proj'', ''/home/u/docs'']) ''/'')
     = Inr [''/home/u/proj'', ''/home/u/docs'']
   \<and> [''/home/u/proj'', ''/home/u/docs''] \<noteq> []
   \<and> stdout (listFolders (world_of (file_of [''/home/u/proj'', ''/home/u/docs'']) ''/'')) =
       ''Available folders:'' @ [nl] @ ''1. /home/u/proj'' @ [nl] @ ''2. /home/u/docs'' @ [nl]"
proof -
  let ?w = "world_of (file_of [''/home/u/proj'', ''/home/u/docs'']) ''/''"
  have r: "readFolderList ?w = Inr [''/home/u/proj'', ''/home/u/docs'']"
    by (rule readFolderList_world_of_file_of) (simp add: entry_literals)
  have u: "[0..<length [''/home/u/proj'', ''/home/u/docs'']] = [0, 1]"
    by (simp add: upt_rec)
  from list_output [of ?w]
  have "\<forall>folders. readFolderList ?w = Inr folders \<and> folders \<noteq> [] \<longrightarrow>
       listFolders ?w =
         \<lparr>stdout = ''Available folders:'' @ [nl] @
            concat (map (\<lambda>k. itoa (k + 1) @ ''. '' @ folders ! k @ [nl]) [0..<length folders]),
          stderr = [], exit_code = 0, final = ?w\<rparr>"
    by (rule conjunct1)
  from this [rule_format, of "[''/home/u/proj'', ''/home/u/docs'']"] r
  have "stdout (listFolders ?w) = ''Available folders:'' @ [nl] @
      concat (map (\<lambda>k. itoa (k + 1) @ ''. '' @ [''/home/u/proj'', ''/home/u/docs''] ! k @ [nl])
        [0..<length [''/home/u/proj'', ''/home/u/docs'']])"
    by simp
  then have "stdout (listFolders ?w) =
      ''Available folders:'' @ [nl] @ ''1. /home/u/proj'' @ [nl] @ ''2. /home/u/docs'' @ [nl]"
    unfolding u by (simp add: itoa_Suc_0 itoa_Suc_Suc_0)
  with r show ?thesis by simp
qed

lemma resolve_spec_eq:
  "resolve_spec token list =
     (case atoi_index token list of
        Some n \<Rightarrow> Some (nat (n - 1), list ! nat (n - 1))
      | None \<Rightarrow> List.find (\<lambda>(i, path). matches token path) (enumerate 0 list))"
  by (simp add: resolve_spec_def atoi_index_def split: sum.splits)

text \<open>
  C8.  The matching code of \<^verbatim>\<open>removeFolder\<close> and that of \<^verbatim>\<open>jumpToFolder\<close> select the same
  entry: both agree with the resolver of the specification.  When that resolver finds
  nothing, \<^verbatim>\<open>indexToRemove\<close> is -1 and \<^verbatim>\<open>jumpToFolder\<close> prints nothing; when it finds
  position \<open>i\<close>, \<^verbatim>\<open>indexToRemove\<close> is \<open>i\<close>, a position of the list, and \<^verbatim>\<open>jumpToFolder\<close>
  prints the entry at \<open>i\<close>.
\<close>

theorem matching_equivalent:
  "index_to_remove token list =
     (case resolve_spec token list of None \<Rightarrow> - 1 | Some (i, path) \<Rightarrow> int i)
   \<and> jump_target token list =
     (case resolve_spec token list of None \<Rightarrow> None | Some (i, path) \<Rightarrow> Some (list ! i))
   \<and> (case resolve_spec token list of None \<Rightarrow> True
       | Some (i, path) \<Rightarrow> i < length list \<and> path = list ! i)"
proof (cases "atoi_index token list")
  case (Some n)
  then have "1 \<le> n" "n \<le> int (length list)" by (simp_all add: atoi_index_Some)
  then have "nat (n - 1) < length list" "int (nat (n - 1)) = n - 1" by simp_all
  with Some show ?thesis
    by (simp add: resolve_spec_eq index_to_remove_def jump_target_def)
next
  case None
  from remove_match_cases [of token 0 list] show ?thesis
  proof
    assume "remove_match token 0 list = - 1 \<and> jump_match token list = None
        \<and> (\<forall>f \<in> set list. \<not> matches token f)"
    with None show ?thesis
      by (simp add: resolve_spec_eq index_to_remove_def jump_target_def find_enumerate)
  next
    assume "\<exists>k < length list. remove_match token 0 list = int (0 + k)
        \<and> jump_match token list = Some (list ! k) \<and> matches token (list ! k)
        \<and> (\<forall>j < k. \<not> matches token (list ! j))"
    then obtain k where "k < length list" "remove_match token 0 list = int k"
      "jump_match token list = Some (list ! k)" by auto
    with None show ?thesis
      by (simp add: resolve_spec_eq index_to_remove_def jump_target_def find_enumerate)
  qed
qed

lemma resolve_spec_jump_target:
  "(case resolve_spec token list of
      None \<Rightarrow> jump_target token list = None
    | Some (i, path) \<Rightarrow>
        i < length list \<and> path = list ! i \<and> jump_target token list = Some path)"
proof (cases "atoi_index token list")
  case (Some n)
  then have "1 \<le> n" "n \<le> int (length list)" by (simp_all add: atoi_index_Some)
  then have "nat (n - 1) < length list" by simp
  with Some show ?thesis by (simp add: resolve_spec_eq jump_target_def)
next
  case None
  from remove_match_cases [of token 0 list] show ?thesis
  proof
    assume "remove_match token 0 list = - 1 \<and> jump_match token list = None
        \<and> (\<forall>f \<in> set list. \<not> matches token f)"
    with None show ?thesis
      by (simp add: resolve_spec_eq jump_target_def find_enumerate)
  next
    assume "\<exists>k < length list. remove_match token 0 list = int (0 + k)
        \<and> jump_match token list = Some (list ! k) \<and> matches token (list ! k)
        \<and> (\<forall>j < k. \<not> matches token (list ! j))"
    then obtain k where "k < length list" "remove_match token 0 list = int k"
      "jump_match token list = Some (list ! k)" by auto
    with None show ?thesis
      by (simp add: resolve_spec_eq jump_target_def find_enumerate)
  qed
qed

lemma resolve_spec_Some:
  assumes "resolve_spec token list = Some (i, path)"
  shows "i < length list \<and> path = list ! i \<and> jump_target token list = Some path"
  using resolve_spec_jump_target [of token list] assms by simp

lemma resolve_spec_None:
  assumes "resolve_spec token list = None"
  shows "jump_target token list = None"
  using resolve_spec_jump_target [of token list] assms by simp

text \<open>
  C2.  The jump verb, with resolution as the specification words it (\<open>resolve_spec\<close>: a
  token that parses as an integer from 1 to the length of the list selects that position,
  any other token the first entry whose base name or full path equals it).  When the file
  is read and the token resolves to position \<open>i\<close>, exactly the path at \<open>i\<close> is written to
  standard output (it is not empty and does not end in a newline), nothing is written to
  standard error, and the exit status is 0.  When the file cannot be read, or the token
  does not resolve, nothing is written to either stream and the exit status is 1.
\<close>

theorem jump_output_contract:
  "(\<forall>folders i path.
       readFolderList w = Inr folders \<and> resolve_spec token folders = Some (i, path) \<longrightarrow>
       jumpToFolder w token = \<lparr>stdout = path, stderr = [], exit_code = 0, final = w\<rparr>
       \<and> i < length folders \<and> path = folders ! i \<and> path \<noteq> [] \<and> last path \<noteq> nl)
   \<and> ((\<exists>e. readFolderList w = Inl e)
        \<or> (\<exists>folders. readFolderList w = Inr folders \<and> resolve_spec token folders = None) \<longrightarrow>
       jumpToFolder w token = \<lparr>stdout = [], stderr = [], exit_code = 1, final = w\<rparr>)"
proof (rule conjI)
  show "\<forall>folders i path.
       readFolderList w = Inr folders \<and> resolve_spec token folders = Some (i, path) \<longrightarrow>
       jumpToFolder w token = \<lparr>stdout = path, stderr = [], exit_code = 0, final = w\<rparr>
       \<and> i < length folders \<and> path = folders ! i \<and> path \<noteq> [] \<and> last path \<noteq> nl"
  proof (intro allI impI)
    fix folders i path
    assume a: "readFolderList w = Inr folders \<and> resolve_spec token folders = Some (i, path)"
    then have r: "i < length folders" "path = folders ! i" "jump_target token folders = Some path"
      using resolve_spec_Some by blast+
    then have "path \<in> set folders" by simp
    with a have "entry path" using readFolderList_entries by blast
    then show "jumpToFolder w token = \<lparr>stdout = path, stderr = [], exit_code = 0, final = w\<rparr>
         \<and> i < length folders \<and> path = folders ! i \<and> path \<noteq> [] \<and> last path \<noteq> nl"
      using a r entry_no_trailing_nl [of path] by (simp add: jumpToFolder_def return0_def)
  qed
next
  show "(\<exists>e. readFolderList w = Inl e)
        \<or> (\<exists>folders. readFolderList w = Inr folders \<and> resolve_spec token folders = None) \<longrightarrow>
       jumpToFolder w token = \<lparr>stdout = [], stderr = [], exit_code = 1, final = w\<rparr>"
    by (auto simp: jumpToFolder_def exit1_def dest: resolve_spec_None)
qed

theorem jump_output_contract_witness:
  "readFolderList (world_of (file_of [''/a/b'', ''/c/d'']) ''/'') = Inr [''/a/b'', ''/c/d'']
   \<and> resolve_spec ''1'' [''/a/b'', ''/c/d''] = Some (0, ''/a/b'')
   \<and> jumpToFolder (world_of (file_of [''/a/b'', ''/c/d'']) ''/'') ''1'' =
       \<lparr>stdout = ''/a/b'', stderr = [], exit_code = 0,
        final = world_of (file_of [''/a/b'', ''/c/d'']) ''/''\<rparr>
   \<and> resolve_spec ''d'' [''/a/b'', ''/c/d''] = Some (1, ''/c/d'')
   \<and> jumpToFolder (world_of (file_of [''/a/b'', ''/c/d'']) ''/'') ''d'' =
       \<lparr>stdout = ''/c/d'', stderr = [], exit_code = 0,
        final = world_of (file_of [''/a/b'', ''/c/d'']) ''/''\<rparr>
   \<and> resolve_spec ''/a/b'' [''/a/b'', ''/c/d''] = Some (0, ''/a/b'')
   \<and> jumpToFolder (world_of (file_of [''/a/b'', ''/c/d'']) ''/'') ''/a/b'' =
       \<lparr>stdout = ''/a/b'', stderr = [], exit_code = 0,
        final = world_of (file_of [''/a/b'', ''/c/d'']) ''/''\<rparr>
   \<and> resolve_spec ''99'' [''/a/b'', ''/c/d''] = None
   \<and> jumpToFolder (world_of (file_of [''/a/b'', ''/c/d'']) ''/'') ''99'' =
       \<lparr>stdout = [], stderr = [], exit_code = 1,
        final = world_of (file_of [''/a/b'', ''/c/d'']) ''/''\<rparr>
   \<and> readFolderList ((world_of [] ''/'')\<lparr>store := Inl (PathError ''permission denied'')\<rparr>)
       = Inl (PathError ''permission denied'')
   \<and> jumpToFolder ((world_of [] ''/'')\<lparr>store := Inl (PathError ''permission denied'')\<rparr>) ''1'' =
       \<lparr>stdout = [], stderr = [], exit_code = 1,
        final = (world_of [] ''/'')\<lparr>store := Inl (PathError ''permission denied'')\<rparr>\<rparr>"
proof -
  let ?w = "world_of (file_of [''/a/b'', ''/c/d'']) ''/''"
  let ?l = "[''/a/b'', ''/c/d'']"
  let ?u = "(world_of [] ''/'')\<lparr>store := Inl (PathError ''permission denied'')\<rparr>"
  have r: "readFolderList ?w = Inr ?l"
    by (rule readFolderList_world_of_file_of) (simp add: entry_literals)
  have u: "readFolderList ?u = Inl (PathError ''permission denied'')"
    by (simp add: readFolderList_def)
  have A: "Atoi ''/a/b'' = Inl ErrSyntax"
    by (simp add: Atoi_def ParseInt_def ParseUint_def isDigit_def digitVal_def)
  have s1: "resolve_spec ''1'' ?l = Some (0, ''/a/b'')"
    by (simp add: resolve_spec_def Atoi_1)
  have s2: "resolve_spec ''d'' ?l = Some (1, ''/c/d'')"
    by (simp add: resolve_spec_def Atoi_d matches_def Base_def)
  have s3: "resolve_spec ''/a/b'' ?l = Some (0, ''/a/b'')"
    by (simp add: resolve_spec_def A matches_def Base_def)
  have s4: "resolve_spec ''99'' ?l = None"
    by (simp add: resolve_spec_def Atoi_99 matches_def Base_def)
  have j1: "jumpToFolder ?w ''1'' = \<lparr>stdout = ''/a/b'', stderr = [], exit_code = 0, final = ?w\<rparr>"
    using jump_output_contract [of ?w "''1''"] r s1 by blast
  have j2: "jumpToFolder ?w ''d'' = \<lparr>stdout = ''/c/d'', stderr = [], exit_code = 0, final = ?w\<rparr>"
    using jump_output_contract [of ?w "''d''"] r s2 by blast
  have j3: "jumpToFolder ?w ''/a/b'' = \<lparr>stdout = ''/a/b'', stderr = [], exit_code = 0, final = ?w\<rparr>"
    using jump_output_contract [of ?w "''/a/b''"] r s3 by blast
  have j4: "jumpToFolder ?w ''99'' = \<lparr>stdout = [], stderr = [], exit_code = 1, final = ?w\<rparr>"
    using jump_output_contract [of ?w "''99''"] r s4 by blast
  have j5: "jumpToFolder ?u ''1'' = \<lparr>stdout = [], stderr = [], exit_code = 1, final = ?u\<rparr>"
    using jump_output_contract [of ?u "''1''"] u by blast
  show ?thesis
    by (intro conjI r s1 s2 s3 s4 j1 j2 j3 j4 j5 u)
qed

lemma replicate_not_space:
  assumes "\<not> asciiSpace c"
  shows "\<not> isSpaceRune (replicate m c)"
proof -
  have "m = 0 \<or> m = 1 \<or> m = 2 \<or> m = 3 \<or> 3 < m" by arith
  then show ?thesis
  proof (elim disjE)
    assume "3 < m"
    then have "length (replicate m c) \<noteq> 1 \<and> length (replicate m c) \<noteq> 2
        \<and> length (replicate m c) \<noteq> 3" by simp
    then show ?thesis using isSpaceRune_length by blast
  qed (use assms in \<open>auto simp: numeral_2_eq_2 numeral_3_eq_3\<close>)
qed

lemma replicate_untrimmed:
  assumes "\<not> asciiSpace c"
  shows "leadingSpace (replicate n c) = 0" "trailingSpace (replicate n c) = 0"
  using replicate_not_space [OF assms]
  by (simp_all add: leadingSpace_zero_iff trailingSpace_zero_iff)

lemma readFolderList_too_long:
  assumes "store w = Inr content" "l \<in> set (lines_of content)" "MaxScanTokenSize \<le> length l"
  shows "readFolderList w = Inl ErrTooLong"
  using readFolderList_lines [OF assms(1)] assms(2,3) by auto

text \<open>
  C7, as the specification states it, fails on a file with a line of 65536 bytes or more:
  the scanner stops with \<^verbatim>\<open>bufio.ErrTooLong\<close> and \<^verbatim>\<open>readFolderList\<close> returns that
  error and no list.
\<close>

theorem loadAll_counterexample:
  "lines_of (replicate 65536 CHR ''a'') = [replicate 65536 CHR ''a'']
   \<and> TrimSpace (replicate 65536 CHR ''a'') = replicate 65536 CHR ''a''
   \<and> readFolderList (world_of (replicate 65536 CHR ''a'') ''/'') = Inl ErrTooLong"
proof -
  have l: "lines_of (replicate 65536 CHR ''a'') = [replicate 65536 CHR ''a'']"
    by (rule lines_of_last) simp
  have "TrimSpace (replicate 65536 CHR ''a'') = replicate 65536 CHR ''a''"
    by (rule TrimSpace_id) (simp_all add: replicate_untrimmed asciiSpace_def)
  moreover have "readFolderList (world_of (replicate 65536 CHR ''a'') ''/'') = Inl ErrTooLong"
    by (rule readFolderList_too_long [where l = "replicate 65536 CHR ''a''"
          and content = "replicate 65536 CHR ''a''"])
      (simp_all add: l world_of_simps MaxScanTokenSize_def)
  ultimately show ?thesis using l by simp
qed

text \<open>
  C7, amended.  For every file content in which every line is shorter than 65536 bytes,
  \<^verbatim>\<open>readFolderList\<close> returns the lines of the file (the pieces between its newline
  bytes), each with the surrounding white space trimmed, without the lines that are empty
  after trimming, in the order of the file.  When some line has 65536 bytes or more it
  returns the error \<^verbatim>\<open>bufio.ErrTooLong\<close>.
\<close>

theorem loadAll_lines:
  "store w = Inr content \<Longrightarrow>
   readFolderList w =
     (if \<forall>l \<in> set (lines_of content). length l < MaxScanTokenSize
      then Inr (filter (\<lambda>l. l \<noteq> []) (map TrimSpace (lines_of content)))
      else Inl ErrTooLong)"
proof -
  assume s: "store w = Inr content"
  have eq: "(\<forall>l \<in> set (lines_of content). length l < MaxScanTokenSize)
      \<longleftrightarrow> \<not> (\<exists>l \<in> set (lines_of content). MaxScanTokenSize \<le> length l)"
    by (meson not_le)
  show ?thesis
    unfolding eq using readFolderList_lines [OF s] by (simp add: concat_kept)
qed

theorem loadAll_lines_witness:
  "store (world_of (''  /a/b '' @ [nl, nl] @ ''/c/d'' @ [cr, nl]) ''/'')
     = Inr (''  /a/b '' @ [nl, nl] @ ''/c/d'' @ [cr, nl])
   \<and> readFolderList (world_of (''  /a/b '' @ [nl, nl] @ ''/c/d'' @ [cr, nl]) ''/'')
     = Inr [''/a/b'', ''/c/d'']"
proof -
  let ?c = "''  /a/b '' @ [nl, nl] @ ''/c/d'' @ [cr, nl]"
  have s: "store (world_of ?c ''/'') = Inr ?c" by (simp add: world_of_simps)
  have l: "lines_of ?c = [''  /a/b '', [], ''/c/d'' @ [cr], []]" by simp
  have t1: "TrimSpace ''  /a/b '' = ''/a/b''"
    by (simp add: TrimSpace_def TrimLeft.simps TrimRight.simps leadingSpace_def
        trailingSpace_def asciiSpace_def)
  have t2: "TrimSpace [slash, CHR ''c'', slash, CHR ''d'', cr] = ''/c/d''"
    by (simp add: TrimSpace_def TrimLeft.simps TrimRight.simps leadingSpace_def
        trailingSpace_def asciiSpace_def)
  show ?thesis
    using loadAll_lines [OF s] unfolding l
    by (simp add: t1 t2 TrimSpace_Nil MaxScanTokenSize_def world_of_simps)
qed

lemma add_then_read:
  assumes "store w = Inr content" "content = [] \<or> last content = nl"
    and "getwd w = Inr p" "entry p"
    and "open_write w = None" "write_string w = None"
    and "readFolderList w = Inr folders"
  shows "getwd (final (addFolder w)) = Inr p
    \<and> open_write (final (addFolder w)) = None \<and> write_string (final (addFolder w)) = None
    \<and> readFolderList (final (addFolder w))
        = Inr (if p \<in> set folders then folders else folders @ [p])"
proof (cases "p \<in> set folders")
  case True
  then show ?thesis using assms addFolder_present [OF assms(3,7) True] by simp
next
  case False
  have "final (addFolder w) = w\<lparr>store := Inr (content @ p @ [nl])\<rparr>"
    using addFolder_fresh [OF assms(1,3,7) False assms(5,6)] by simp
  then show ?thesis
    using False assms readFolderList_append [OF assms(1,2,7,4)] by simp
qed

lemma second_add:
  assumes "store w = Inr content" "content = [] \<or> last content = nl"
    and "getwd w = Inr p" "entry p"
    and "open_write w = None" "write_string w = None"
    and "readFolderList w = Inr folders"
  shows "addFolder (final (addFolder w)) =
           \<lparr>stdout = ''Current folder already in the list: '' @ p @ [nl], stderr = [],
            exit_code = 0, final = final (addFolder w)\<rparr>"
proof -
  let ?l = "if p \<in> set folders then folders else folders @ [p]"
  have "getwd (final (addFolder w)) = Inr p" "readFolderList (final (addFolder w)) = Inr ?l"
    using add_then_read [OF assms] by simp_all
  moreover have "p \<in> set ?l" by simp
  ultimately show ?thesis by (rule addFolder_present)
qed

lemma count_list_once:
  assumes "count_list folders p \<le> 1"
  shows "count_list (if p \<in> set folders then folders else folders @ [p]) p = 1"
proof (cases "p \<in> set folders")
  case True
  then have "count_list folders p \<noteq> 0" by (simp add: count_list_0_iff)
  with assms True show ?thesis by simp
next
  case False
  then show ?thesis by (simp add: count_list_0_iff)
qed

lemma file_two: "''/a'' @ [nl] @ ''/a'' @ [nl] = file_of [''/a'', ''/a'']"
  by (simp add: file_of_def)

lemma read_two:
  "readFolderList (world_of (''/a'' @ [nl] @ ''/a'' @ [nl]) ''/a'') = Inr [''/a'', ''/a'']"
  unfolding file_two by (rule readFolderList_world_of_file_of) (simp add: entry_literals)

lemma add_two:
  "final (addFolder (world_of (''/a'' @ [nl] @ ''/a'' @ [nl]) ''/a''))
     = world_of (''/a'' @ [nl] @ ''/a'' @ [nl]) ''/a''"
  using addFolder_present [OF _ read_two] by (simp add: world_of_simps)

text \<open>
  C5, as the specification states it, fails on a file that already names the working
  directory twice: \<^verbatim>\<open>addFolder\<close> removes no duplicates, so after two runs the list still
  has two entries equal to it.
\<close>

theorem add_idempotent_counterexample:
  "readFolderList (final (addFolder (final (addFolder
       (world_of (''/a'' @ [nl] @ ''/a'' @ [nl]) ''/a''))))) = Inr [''/a'', ''/a'']
   \<and> count_list [''/a'', ''/a''] ''/a'' = 2"
  by (simp only: add_two read_two) simp

text \<open>
  C5, amended.  Let the file be empty or end in a newline, let \<^verbatim>\<open>readFolderList\<close> read
  it without error, let opening it for writing and writing to it succeed, let it name the
  working directory \<open>p\<close> at most once, and let \<open>p\<close> be a string that is not empty, has no
  white space at either end and no newline and is shorter than 65536 bytes.  Then after \<^verbatim>\<open>add\<close> is run twice from \<open>p\<close> the list that is read has exactly one
  entry equal to \<open>p\<close>, and the second run prints the line
  \<^verbatim>\<open>Current folder already in the list: \<close>\<open>p\<close>, exits with status 0 and leaves the world,
  the file included, as the first run left it.
\<close>

theorem add_idempotent:
  assumes "store w = Inr content" and "content = [] \<or> last content = nl"
    and "getwd w = Inr p" and "entry p"
    and "open_write w = None" and "write_string w = None"
    and "readFolderList w = Inr folders" and "count_list folders p \<le> 1"
  shows "\<exists>list. readFolderList (final (addFolder (final (addFolder w)))) = Inr list
           \<and> count_list list p = 1
           \<and> addFolder (final (addFolder w)) =
               \<lparr>stdout = ''Current folder already in the list: '' @ p @ [nl], stderr = [],
                exit_code = 0, final = final (addFolder w)\<rparr>"
proof -
  let ?l = "if p \<in> set folders then folders else folders @ [p]"
  have s: "addFolder (final (addFolder w)) =
      \<lparr>stdout = ''Current folder already in the list: '' @ p @ [nl], stderr = [],
       exit_code = 0, final = final (addFolder w)\<rparr>"
    by (rule second_add [OF assms(1-7)])
  have "readFolderList (final (addFolder w)) = Inr ?l"
    using add_then_read [OF assms(1-7)] by simp
  then have "readFolderList (final (addFolder (final (addFolder w)))) = Inr ?l"
    by (simp add: s)
  moreover have "count_list ?l p = 1" by (rule count_list_once [OF assms(8)])
  ultimately show ?thesis using s by blast
qed

theorem add_idempotent_witness:
  "store (world_of [] ''/home/u/proj'') = Inr []
   \<and> getwd (world_of [] ''/home/u/proj'') = Inr ''/home/u/proj''
   \<and> entry ''/home/u/proj''
   \<and> open_write (world_of [] ''/home/u/proj'') = None
   \<and> write_string (world_of [] ''/home/u/proj'') = None
   \<and> readFolderList (world_of [] ''/home/u/proj'') = Inr []
   \<and> count_list [] ''/home/u/proj'' \<le> 1
   \<and> stdout (addFolder (final (addFolder (world_of [] ''/home/u/proj''))))
       = ''Current folder already in the list: /home/u/proj'' @ [nl]
   \<and> final (addFolder (final (addFolder (world_of [] ''/home/u/proj''))))
       = world_of (''/home/u/proj'' @ [nl]) ''/home/u/proj''"
proof -
  let ?w = "world_of [] ''/home/u/proj''"
  have "\<exists>list. readFolderList (final (addFolder (final (addFolder ?w)))) = Inr list
           \<and> count_list list ''/home/u/proj'' = 1
           \<and> addFolder (final (addFolder ?w)) =
               \<lparr>stdout = ''Current folder already in the list: '' @ ''/home/u/proj'' @ [nl],
                stderr = [], exit_code = 0, final = final (addFolder ?w)\<rparr>"
    by (rule add_idempotent [where content = "[]" and folders = "[]"])
      (simp_all add: world_of_simps entry_literals readFolderList_empty)
  then have "addFolder (final (addFolder ?w)) =
      \<lparr>stdout = ''Current folder already in the list: '' @ ''/home/u/proj'' @ [nl],
       stderr = [], exit_code = 0, final = final (addFolder ?w)\<rparr>"
    by blast
  then show ?thesis
    by (simp add: world_of_simps entry_literals readFolderList_empty add_to_empty file_of_def)
qed

lemma removeFolder_index:
  assumes "readFolderList w = Inr list" "i < length list" "length list < 2 ^ 63"
    and "open_write w = None" "write_string w = None"
  shows "removeFolder w (itoa (i + 1)) =
           \<lparr>stdout = ''Removed folder: '' @ list ! i @ [nl], stderr = [], exit_code = 0,
            final = w\<lparr>store := Inr (file_of (take i list @ drop (i + 1) list))\<rparr>\<rparr>"
proof -
  have "atoi_index (itoa (i + 1)) list = Some (int (i + 1))"
    using assms(2,3) by (intro atoi_index_itoa) simp_all
  then have "index_to_remove (itoa (i + 1)) list = int i"
    by (simp add: index_to_remove_def)
  moreover have "list \<noteq> []" using assms(2) by auto
  ultimately show ?thesis
    using assms(1,4,5) by (simp add: removeFolder_def Let_def write_all_ok return0_def)
qed

lemma remove_then_read:
  assumes "readFolderList w = Inr list" "i < length list" "length list < 2 ^ 63"
    and "open_write w = None" "write_string w = None"
  shows "readFolderList (final (removeFolder w (itoa (i + 1))))
           = Inr (take i list @ drop (i + 1) list)"
proof -
  have "\<forall>e \<in> set (take i list @ drop (i + 1) list). entry e"
    using readFolderList_entries [OF assms(1)]
    by (auto dest: in_set_takeD in_set_dropD)
  then show ?thesis
    using removeFolder_index [OF assms] by (simp add: readFolderList_file_of)
qed

lemma removed_once:
  assumes "count_list list p = 1" "i < length list" "list ! i = p"
  shows "p \<notin> set (take i list @ drop (i + 1) list)"
proof -
  have "list = take i list @ p # drop (i + 1) list"
    using assms(2,3) id_take_nth_drop [of i list] by simp
  then have "count_list list p = count_list (take i list) p + 1 + count_list (drop (i + 1) list) p"
    by (metis count_list_append count_list.simps(2) add.assoc add.commute)
  with assms(1) have "count_list (take i list) p = 0" "count_list (drop (i + 1) list) p = 0"
    by simp_all
  then show ?thesis by (simp add: count_list_0_iff)
qed

lemma removed_shift:
  assumes "i < length list"
  shows "length (take i list @ drop (i + 1) list) + 1 = length list"
    and "\<forall>j < i. (take i list @ drop (i + 1) list) ! j = list ! j"
    and "\<forall>j. i \<le> j \<and> j < length (take i list @ drop (i + 1) list) \<longrightarrow>
           (take i list @ drop (i + 1) list) ! j = list ! (j + 1)"
  using assms by (auto simp: nth_append min_def)

lemma file_two_entries: "''/a/b'' @ [nl] @ ''/c/d'' @ [nl] = file_of [''/a/b'', ''/c/d'']"
  by (simp add: file_of_def)

lemma read_two_entries:
  "readFolderList (world_of (''/a/b'' @ [nl] @ ''/c/d'' @ [nl]) dir) = Inr [''/a/b'', ''/c/d'']"
  unfolding file_two_entries
  by (rule readFolderList_world_of_file_of) (simp add: entry_literals)

text \<open>
  C6, as the specification states it, fails on a file that already names the working
  directory twice: after \<^verbatim>\<open>add\<close> the list shows it at index 1, and after \<^verbatim>\<open>remove 1\<close>
  the list still includes it.
\<close>

theorem add_remove_counterexample:
  "readFolderList (final (addFolder (world_of (''/a'' @ [nl] @ ''/a'' @ [nl]) ''/a'')))
     = Inr [''/a'', ''/a'']
   \<and> readFolderList (final (removeFolder
        (final (addFolder (world_of (''/a'' @ [nl] @ ''/a'' @ [nl]) ''/a''))) ''1''))
     = Inr [''/a'']"
proof -
  let ?w = "world_of (''/a'' @ [nl] @ ''/a'' @ [nl]) ''/a''"
  have "readFolderList (final (removeFolder ?w (itoa (0 + 1))))
      = Inr (take 0 [''/a'', ''/a''] @ drop (0 + 1) [''/a'', ''/a''])"
    by (rule remove_then_read [OF read_two]) (simp_all add: world_of_simps)
  then show ?thesis unfolding add_two read_two by (simp add: itoa_Suc_0)
qed

text \<open>
  C6, amended.  Let the file be empty or end in a newline, let \<^verbatim>\<open>readFolderList\<close> read
  it without error, let opening it for writing and writing to it succeed, let it name the
  working directory \<open>p\<close> at most once and hold fewer than \<open>2 ^ 63 - 1\<close> entries, and let
  \<open>p\<close> be a string that is not empty, has no white space at either end and no newline and
  is shorter than 65536 bytes.  Then after \<^verbatim>\<open>add\<close> from \<open>p\<close> the list
  that is read includes \<open>p\<close>; and for the index \<open>i\<close> (from 0) of \<open>p\<close> there, after
  \<^verbatim>\<open>remove\<close> with the number \<open>i + 1\<close> the list that is read no longer includes \<open>p\<close>, is one
  entry shorter, has the same entry as before at every index below \<open>i\<close>, and at every index
  \<open>j\<close> from \<open>i\<close> on the entry that was at \<open>j + 1\<close>.
\<close>

theorem add_remove_round_trip:
  assumes "store w = Inr content" and "content = [] \<or> last content = nl"
    and "getwd w = Inr p" and "entry p"
    and "open_write w = None" and "write_string w = None"
    and "readFolderList w = Inr folders" and "count_list folders p \<le> 1"
    and "length folders + 1 < 2 ^ 63"
  shows "\<exists>list. readFolderList (final (addFolder w)) = Inr list \<and> p \<in> set list
           \<and> (\<forall>i < length list. list ! i = p \<longrightarrow>
                 (\<exists>list'. readFolderList
                             (final (removeFolder (final (addFolder w)) (itoa (i + 1))))
                           = Inr list'
                    \<and> p \<notin> set list' \<and> length list' + 1 = length list
                    \<and> (\<forall>j < i. list' ! j = list ! j)
                    \<and> (\<forall>j. i \<le> j \<and> j < length list' \<longrightarrow> list' ! j = list ! (j + 1))))"
proof -
  let ?l = "if p \<in> set folders then folders else folders @ [p]"
  let ?w = "final (addFolder w)"
  have a: "open_write ?w = None" "write_string ?w = None" "readFolderList ?w = Inr ?l"
    using add_then_read [OF assms(1-7)] by simp_all
  have c: "count_list ?l p = 1" by (rule count_list_once [OF assms(8)])
  have len: "length ?l < 2 ^ 63" using assms(9) by simp
  have "\<exists>list'. readFolderList (final (removeFolder ?w (itoa (i + 1)))) = Inr list'
          \<and> p \<notin> set list' \<and> length list' + 1 = length ?l
          \<and> (\<forall>j < i. list' ! j = ?l ! j)
          \<and> (\<forall>j. i \<le> j \<and> j < length list' \<longrightarrow> list' ! j = ?l ! (j + 1))"
    if i: "i < length ?l" "?l ! i = p" for i
  proof (intro exI conjI)
    show "readFolderList (final (removeFolder ?w (itoa (i + 1))))
        = Inr (take i ?l @ drop (i + 1) ?l)"
      by (rule remove_then_read [OF a(3) i(1) len a(1,2)])
    show "p \<notin> set (take i ?l @ drop (i + 1) ?l)"
      by (rule removed_once [OF c i])
  qed (rule removed_shift [OF i(1)])+
  moreover have "p \<in> set ?l" by simp
  ultimately show ?thesis using a(3) by blast
qed

theorem add_remove_round_trip_witness:
  "store (world_of (''/a/b'' @ [nl] @ ''/c/d'' @ [nl]) ''/a/b'')
     = Inr (''/a/b'' @ [nl] @ ''/c/d'' @ [nl])
   \<and> last (''/a/b'' @ [nl] @ ''/c/d'' @ [nl]) = nl
   \<and> getwd (world_of (''/a/b'' @ [nl] @ ''/c/d'' @ [nl]) ''/a/b'') = Inr ''/a/b''
   \<and> entry ''/a/b''
   \<and> readFolderList (world_of (''/a/b'' @ [nl] @ ''/c/d'' @ [nl]) ''/a/b'')
       = Inr [''/a/b'', ''/c/d'']
   \<and> count_list [''/a/b'', ''/c/d''] ''/a/b'' \<le> 1
   \<and> readFolderList (final (addFolder (world_of (''/a/b'' @ [nl] @ ''/c/d'' @ [nl]) ''/a/b'')))
       = Inr [''/a/b'', ''/c/d'']
   \<and> readFolderList (final (removeFolder
        (final (addFolder (world_of (''/a/b'' @ [nl] @ ''/c/d'' @ [nl]) ''/a/b''))) ''1''))
       = Inr [''/c/d'']"
proof -
  let ?w = "world_of (''/a/b'' @ [nl] @ ''/c/d'' @ [nl]) ''/a/b''"
  let ?l = "[''/a/b'', ''/c/d'']"
  have r: "readFolderList ?w = Inr ?l" by (rule read_two_entries)
  have f: "final (addFolder ?w) = ?w"
    using addFolder_present [OF _ r] by (simp add: world_of_simps)
  have "\<exists>list. readFolderList (final (addFolder ?w)) = Inr list \<and> ''/a/b'' \<in> set list
           \<and> (\<forall>i < length list. list ! i = ''/a/b'' \<longrightarrow>
                 (\<exists>list'. readFolderList
                             (final (removeFolder (final (addFolder ?w)) (itoa (i + 1))))
                           = Inr list'
                    \<and> ''/a/b'' \<notin> set list' \<and> length list' + 1 = length list
                    \<and> (\<forall>j < i. list' ! j = list ! j)
                    \<and> (\<forall>j. i \<le> j \<and> j < length list' \<longrightarrow> list' ! j = list ! (j + 1))))"
    by (rule add_remove_round_trip
          [OF _ _ _ _ _ _ r, where content = "''/a/b'' @ [nl] @ ''/c/d'' @ [nl]"])
      (simp_all add: world_of_simps entry_literals)
  then have "\<forall>i < length ?l. ?l ! i = ''/a/b'' \<longrightarrow>
                 (\<exists>list'. readFolderList (final (removeFolder ?w (itoa (i + 1)))) = Inr list'
                    \<and> length list' + 1 = length ?l
                    \<and> (\<forall>j. i \<le> j \<and> j < length list' \<longrightarrow> list' ! j = ?l ! (j + 1)))"
    unfolding f r by auto
  from this [rule_format, of 0]
  obtain list' where l': "readFolderList (final (removeFolder ?w (itoa (0 + 1)))) = Inr list'"
    "length list' + 1 = length ?l" "\<forall>j. 0 \<le> j \<and> j < length list' \<longrightarrow> list' ! j = ?l ! (j + 1)"
    by auto
  from l'(2) have "length list' = 1" by simp
  moreover from this l'(3) have "list' ! 0 = ''/c/d''" by simp
  ultimately have "list' = [''/c/d'']"
    by (cases list') auto
  with l'(1) show ?thesis
    unfolding f r by (simp add: world_of_simps entry_literals itoa_Suc_0)
qed






end
